theory Spec2Isabelle
  imports Complex_Main "HOL-Library.Multiset"
begin

section \<open>Python values\<close>

text \<open>
  A Python string is the list of its code points; \<open>ascii\<close> writes an ASCII literal. Python
  integers are unbounded and are modelled by \<open>int\<close>; floats are modelled by real numbers, so
  that the rounding of floating-point arithmetic, infinities and NaN are left out.
\<close>

type_synonym pystr = "nat list"

definition ascii :: "string \<Rightarrow> pystr" where
  "ascii s = map of_char s"

section \<open>Segment consolidation (detect\_theodore.py, step 7)\<close>

text \<open>
  Window indices and the times derived from them are Python integers; a similarity is a
  float, modelled as a real number (rounding of floating-point arithmetic is not modelled).
  The three module constants of \<^verbatim>\<open>detect_theodore.py\<close>:
\<close>

definition SEGMENT_DURATION_SEC :: int where
  "SEGMENT_DURATION_SEC = 3"

definition SIMILARITY_THRESHOLD :: real where
  "SIMILARITY_THRESHOLD = 95 / 100"

definition MIN_CONSECUTIVE_SEGMENTS :: int where
  "MIN_CONSECUTIVE_SEGMENTS = 1"

text \<open>
  Closing a run: \<^verbatim>\<open>if (current_end - current_start + 1) >= MIN_CONSECUTIVE_SEGMENTS:
  consolidated_segments.append((start_sec, end_sec))\<close>.
\<close>

definition close_run :: "int \<Rightarrow> int \<Rightarrow> (int \<times> int) list \<Rightarrow> (int \<times> int) list" where
  "close_run current_start current_end consolidated_segments =
     (if current_end - current_start + 1 \<ge> MIN_CONSECUTIVE_SEGMENTS
      then consolidated_segments @
             [(current_start * SEGMENT_DURATION_SEC, (current_end + 1) * SEGMENT_DURATION_SEC)]
      else consolidated_segments)"

text \<open>
  The loop \<^verbatim>\<open>for idx in detections[1:]\<close> with its three variables, followed by the
  closing of the last run.
\<close>

fun consolidate_loop ::
  "int \<Rightarrow> int \<Rightarrow> (int \<times> int) list \<Rightarrow> int list \<Rightarrow> (int \<times> int) list" where
  "consolidate_loop current_start current_end consolidated_segments [] =
     close_run current_start current_end consolidated_segments"
| "consolidate_loop current_start current_end consolidated_segments (idx # rest) =
     (if idx = current_end + 1
      then consolidate_loop current_start idx consolidated_segments rest
      else consolidate_loop idx idx
             (close_run current_start current_end consolidated_segments) rest)"

text \<open>\<^verbatim>\<open>if detections: ...\<close>; an empty list of detections leaves the result empty.\<close>

fun consolidate :: "int list \<Rightarrow> (int \<times> int) list" where
  "consolidate [] = []"
| "consolidate (d # rest) = consolidate_loop d d [] rest"

text \<open>
  The detections are the indices of the scored windows whose similarity reaches the
  threshold, in the order in which the windows were scored.
\<close>

definition detections_of :: "(int \<times> real) list \<Rightarrow> int list" where
  "detections_of scores = map fst (filter (\<lambda>(i, similarity). similarity \<ge> SIMILARITY_THRESHOLD) scores)"

definition consolidate_scores :: "(int \<times> real) list \<Rightarrow> (int \<times> int) list" where
  "consolidate_scores scores = consolidate (detections_of scores)"

subsection \<open>Runs of consecutive indices\<close>

text \<open>
  A list of index pairs \<open>(a, b)\<close> is the decomposition of an index list into maximal runs
  when every pair is a non-empty interval, the intervals laid end to end give the index
  list back, and two neighbouring intervals are separated by at least one missing index.
\<close>

definition run_indices :: "int \<times> int \<Rightarrow> int list" where
  "run_indices r = [fst r .. snd r]"

definition run_gap :: "int \<times> int \<Rightarrow> int \<times> int \<Rightarrow> bool" where
  "run_gap r r' \<longleftrightarrow> snd r + 1 < fst r'"

definition maximal_runs :: "int list \<Rightarrow> (int \<times> int) list \<Rightarrow> bool" where
  "maximal_runs ds runs \<longleftrightarrow>
     list_all (\<lambda>r. fst r \<le> snd r) runs \<and>
     concat (map run_indices runs) = ds \<and>
     successively run_gap runs"

definition run_segment :: "int \<times> int \<Rightarrow> int \<times> int" where
  "run_segment r = (fst r * SEGMENT_DURATION_SEC, (snd r + 1) * SEGMENT_DURATION_SEC)"

text \<open>The runs the loop has in hand: the closed ones, then the open one.\<close>

fun runs_loop :: "int \<Rightarrow> int \<Rightarrow> int list \<Rightarrow> (int \<times> int) list" where
  "runs_loop cs ce [] = [(cs, ce)]"
| "runs_loop cs ce (idx # rest) =
     (if idx = ce + 1 then runs_loop cs idx rest else (cs, ce) # runs_loop idx idx rest)"

fun runs_of :: "int list \<Rightarrow> (int \<times> int) list" where
  "runs_of [] = []"
| "runs_of (d # rest) = runs_loop d d rest"

section \<open>Consolidation in the batch worker (detect\_batch.py)\<close>

text \<open>
  A match is the dictionary \<^verbatim>\<open>{'start': ..., 'end': ..., 'similarity': ...}\<close> appended for a
  window that reaches the threshold. A consolidated segment, the dictionary
  \<^verbatim>\<open>{'start': ..., 'end': ...}\<close>, is written as the pair of its two values.
\<close>

record match =
  m_start :: int
  m_end :: int
  m_similarity :: real

definition batch_SEGMENT_DURATION_SEC :: int where
  "batch_SEGMENT_DURATION_SEC = 3"

definition new_match :: "int \<Rightarrow> real \<Rightarrow> match" where
  "new_match i sim =
     \<lparr>m_start = i * batch_SEGMENT_DURATION_SEC,
      m_end = (i + 1) * batch_SEGMENT_DURATION_SEC,
      m_similarity = sim\<rparr>"

fun batch_consolidate_loop ::
  "int \<Rightarrow> int \<Rightarrow> (int \<times> int) list \<Rightarrow> match list \<Rightarrow> (int \<times> int) list" where
  "batch_consolidate_loop current_start current_end consolidated [] =
     consolidated @ [(current_start, current_end)]"
| "batch_consolidate_loop current_start current_end consolidated (m # rest) =
     (if m_start m \<le> current_end
      then batch_consolidate_loop current_start (m_end m) consolidated rest
      else batch_consolidate_loop (m_start m) (m_end m)
             (consolidated @ [(current_start, current_end)]) rest)"

fun batch_consolidate :: "match list \<Rightarrow> (int \<times> int) list" where
  "batch_consolidate [] = []"
| "batch_consolidate (m # rest) = batch_consolidate_loop (m_start m) (m_end m) [] rest"


section \<open>Splitting segments into shorts (generate\_shorts.py)\<close>

text \<open>
  Times are seconds: integers when the segments are read back from the timestamp file,
  floats otherwise. They are modelled as real numbers, which covers both; rounding of
  floating-point arithmetic is not modelled.
\<close>

definition SHORT_MIN_DURATION :: real where
  "SHORT_MIN_DURATION = 3"

definition SHORT_MAX_DURATION :: real where
  "SHORT_MAX_DURATION = 60"

definition SHORT_TARGET_DURATION :: real where
  "SHORT_TARGET_DURATION = 30"

text \<open>
  One pass through the body of \<^verbatim>\<open>while current_start < end\<close>: the end of the slice, which
  takes in the rest of the segment when that rest is shorter than the minimum, and the
  guarded append of the slice.
\<close>

definition slice_end :: "real \<Rightarrow> real \<Rightarrow> real" where
  "slice_end current_start end_sec =
     (let current_end = min (current_start + SHORT_TARGET_DURATION) end_sec;
          remaining = end_sec - current_end
      in if remaining > 0 \<and> remaining < SHORT_MIN_DURATION then end_sec else current_end)"

definition append_short :: "real \<Rightarrow> real \<Rightarrow> (real \<times> real) list \<Rightarrow> (real \<times> real) list" where
  "append_short current_start current_end shorts =
     (if current_end - current_start \<ge> SHORT_MIN_DURATION
      then shorts @ [(current_start, current_end)] else shorts)"

text \<open>
  The while loop. Each pass either reaches the end of the segment or advances by the
  target duration, which bounds the number of passes.
\<close>

function split_loop :: "real \<Rightarrow> real \<Rightarrow> (real \<times> real) list \<Rightarrow> (real \<times> real) list" where
  "split_loop current_start end_sec shorts =
     (if current_start < end_sec
      then split_loop (slice_end current_start end_sec) end_sec
             (append_short current_start (slice_end current_start end_sec) shorts)
      else shorts)"
  by pat_completeness auto
termination
proof (relation "measure (\<lambda>(current_start, end_sec, shorts). nat \<lceil>(end_sec - current_start) / 30\<rceil>)")
  show "wf (measure (\<lambda>(current_start, end_sec, shorts). nat \<lceil>(end_sec - current_start) / 30\<rceil>))"
    by simp
next
  fix current_start end_sec :: real and shorts :: "(real \<times> real) list"
  assume lt: "current_start < end_sec"
  have pos: "0 < \<lceil>(end_sec - current_start) / 30\<rceil>" using lt by simp
  have "\<lceil>(end_sec - slice_end current_start end_sec) / 30\<rceil> < \<lceil>(end_sec - current_start) / 30\<rceil>"
  proof (cases "slice_end current_start end_sec = end_sec")
    case True
    with pos show ?thesis by simp
  next
    case False
    then have "slice_end current_start end_sec = current_start + 30"
      by (auto simp: slice_end_def Let_def SHORT_TARGET_DURATION_def min_def split: if_splits)
    then have "(end_sec - slice_end current_start end_sec) / 30 = (end_sec - current_start) / 30 - 1"
      by simp
    then show ?thesis by (simp only: ceiling_diff_one)
  qed
  with pos show "((slice_end current_start end_sec, end_sec,
              append_short current_start (slice_end current_start end_sec) shorts),
             (current_start, end_sec, shorts))
            \<in> measure (\<lambda>(current_start, end_sec, shorts). nat \<lceil>(end_sec - current_start) / 30\<rceil>)"
    by simp
qed

declare split_loop.simps [simp del]

text \<open>The body of \<^verbatim>\<open>for start, end in segments\<close>, then the loop over the segments.\<close>

definition split_segment :: "real \<times> real \<Rightarrow> (real \<times> real) list \<Rightarrow> (real \<times> real) list" where
  "split_segment seg shorts =
     (let start = fst seg; end_sec = snd seg; duration = end_sec - start
      in if duration \<le> SHORT_MAX_DURATION
         then (if duration \<ge> SHORT_MIN_DURATION then shorts @ [(start, end_sec)] else shorts)
         else split_loop start end_sec shorts)"

fun split_segments :: "(real \<times> real) list \<Rightarrow> (real \<times> real) list \<Rightarrow> (real \<times> real) list" where
  "split_segments [] shorts = shorts"
| "split_segments (seg # rest) shorts = split_segments rest (split_segment seg shorts)"

definition split_into_shorts :: "(real \<times> real) list \<Rightarrow> (real \<times> real) list" where
  "split_into_shorts segments = split_segments segments []"

section \<open>Grouping words for display (generate\_shorts.py)\<close>

text \<open>
  A word is the tuple \<^verbatim>\<open>(start, end, word)\<close> and a group the tuple
  \<^verbatim>\<open>(group_start, group_end, group_text)\<close>; times are floats, modelled as real numbers
  (rounding is not modelled).
\<close>

type_synonym word_timestamp = "real \<times> real \<times> pystr"
type_synonym display_group = "real \<times> real \<times> pystr"

definition g_start :: "display_group \<Rightarrow> real" where
  "g_start g = fst g"

definition g_end :: "display_group \<Rightarrow> real" where
  "g_end g = fst (snd g)"

definition g_text :: "display_group \<Rightarrow> pystr" where
  "g_text g = snd (snd g)"

definition WORDS_PER_GROUP :: int where
  "WORDS_PER_GROUP = 4"

definition MIN_WORD_DURATION :: real where
  "MIN_WORD_DURATION = 15 / 100"

text \<open>\<^verbatim>\<open>" ".join(...)\<close>\<close>

fun join_space :: "pystr list \<Rightarrow> pystr" where
  "join_space [] = []"
| "join_space [w] = w"
| "join_space (w # v # ws) = w @ [32] @ join_space (v # ws)"

text \<open>
  The group built from a non-empty \<^verbatim>\<open>current_group\<close>: both places of the source that build a
  group do so only after an append or under \<^verbatim>\<open>if current_group\<close>.
\<close>

fun make_group :: "word_timestamp list \<Rightarrow> display_group" where
  "make_group (w # ws) =
     (let group_start = fst w;
          group_end = fst (snd (last (w # ws)));
          group_end = (if group_end - group_start < MIN_WORD_DURATION * real (length (w # ws))
                       then group_start + MIN_WORD_DURATION * real (length (w # ws))
                       else group_end);
          group_text = join_space (map (\<lambda>w. snd (snd w)) (w # ws))
      in (group_start, group_end, group_text))"

text \<open>The loop over the words, then the last, partial group.\<close>

fun group_loop ::
  "int \<Rightarrow> word_timestamp list \<Rightarrow> word_timestamp list \<Rightarrow> display_group list \<Rightarrow> display_group list" where
  "group_loop words_per_group [] current_group groups =
     (if current_group \<noteq> [] then groups @ [make_group current_group] else groups)"
| "group_loop words_per_group (w # rest) current_group groups =
     (if int (length (current_group @ [w])) \<ge> words_per_group
      then group_loop words_per_group rest [] (groups @ [make_group (current_group @ [w])])
      else group_loop words_per_group rest (current_group @ [w]) groups)"

text \<open>
  The sweep \<^verbatim>\<open>for i in range(1, len(groups))\<close>: one pass, then all of them in order. Every
  index read or written lies inside the list.
\<close>

definition resolve_step :: "nat \<Rightarrow> display_group list \<Rightarrow> display_group list" where
  "resolve_step i groups =
     (if g_start (groups ! i) < g_end (groups ! (i - 1))
      then groups[i := (g_end (groups ! (i - 1)), g_end (groups ! i), g_text (groups ! i))]
      else groups)"

definition resolve_overlaps :: "display_group list \<Rightarrow> display_group list" where
  "resolve_overlaps groups = fold resolve_step [1..<length groups] groups"

definition group_words_for_display :: "word_timestamp list \<Rightarrow> int \<Rightarrow> display_group list" where
  "group_words_for_display word_timestamps words_per_group =
     (if word_timestamps = [] then []
      else resolve_overlaps (group_loop words_per_group word_timestamps [] []))"


text \<open>What the sweep makes of the group at index \<open>j > 0\<close>.\<close>

definition swept :: "display_group list \<Rightarrow> nat \<Rightarrow> display_group" where
  "swept gs j = (max (g_start (gs ! j)) (g_end (gs ! (j - 1))), g_end (gs ! j), g_text (gs ! j))"

section \<open>Scanning the windows (detect\_theodore.py, step 6)\<close>

text \<open>
  An exception caught by \<^verbatim>\<open>except Exception\<close>, with the message \<^verbatim>\<open>str(e)\<close> gives.
\<close>

datatype exn = Exception pystr

fun str_exn :: "exn \<Rightarrow> pystr" where
  "str_exn (Exception msg) = msg"

text \<open>
  What the scan reads of a window: the peak amplitude \<^verbatim>\<open>np.max(np.abs(segment))\<close>, and what
  the body of the \<^verbatim>\<open>try\<close> block comes to, the similarity between the reference and the
  embedding of the window, or the exception raised on the way.
\<close>

record window =
  peak :: real
  embed :: "exn + real"

definition SILENCE_PEAK :: real where
  "SILENCE_PEAK = 5 / 1000"

text \<open>
  The loop \<^verbatim>\<open>for i in range(total_segments)\<close>: a silent window is skipped before the oracle is
  called, a window whose oracle raises is skipped by \<^verbatim>\<open>except Exception: continue\<close>.
\<close>

fun scan_windows ::
  "int \<Rightarrow> window list \<Rightarrow> (int \<times> real) list \<Rightarrow> int list \<Rightarrow> (int \<times> real) list \<times> int list" where
  "scan_windows i [] all_similarities detections = (all_similarities, detections)"
| "scan_windows i (w # rest) all_similarities detections =
     (if peak w < SILENCE_PEAK then scan_windows (i + 1) rest all_similarities detections
      else case embed w of
        Inl e \<Rightarrow> scan_windows (i + 1) rest all_similarities detections
      | Inr similarity \<Rightarrow>
          scan_windows (i + 1) rest (all_similarities @ [(i, similarity)])
            (if similarity \<ge> SIMILARITY_THRESHOLD then detections @ [i] else detections))"

definition detect_theodore_segments :: "window list \<Rightarrow> (int \<times> int) list" where
  "detect_theodore_segments windows = consolidate (snd (scan_windows 0 windows [] []))"

section \<open>The batch worker and the collection of its results (detect\_batch.py)\<close>

text \<open>
  What the worker's loop reads of a window: the number of samples \<^verbatim>\<open>len(segment)\<close>, and the
  similarity of the normalised window or the exception raised while computing it. The loop
  has no \<^verbatim>\<open>try\<close> of its own: an exception leaves it.
\<close>

record batch_window =
  n_samples :: nat
  b_embed :: "exn + real"

definition batch_SIMILARITY_THRESHOLD :: real where
  "batch_SIMILARITY_THRESHOLD = 95 / 100"

fun batch_scan :: "nat \<Rightarrow> int \<Rightarrow> batch_window list \<Rightarrow> match list \<Rightarrow> exn + match list" where
  "batch_scan sr i [] matches = Inr matches"
| "batch_scan sr i (w # rest) matches =
     (if n_samples w < sr then batch_scan sr (i + 1) rest matches
      else case b_embed w of
        Inl e \<Rightarrow> Inl e
      | Inr sim \<Rightarrow>
          batch_scan sr (i + 1) rest
            (if sim \<ge> batch_SIMILARITY_THRESHOLD then matches @ [new_match i sim] else matches))"

text \<open>
  The result dictionary, and what the worker meets on its way for one video: what loading
  the print and the model, converting and reading the audio come to (an exception, or the
  duration, the sample rate and the windows), and whether removing the temporary file
  raises.
\<close>

datatype status = StatusError | StatusSuccess

record result =
  r_video :: pystr
  r_status :: status
  r_segments :: "(int \<times> int) list"
  r_total_duration :: real
  r_theodore_duration :: int
  r_error :: "pystr option"

record video_task =
  video_name :: pystr
  prepared :: "exn + (real \<times> nat \<times> batch_window list)"
  cleanup :: "exn option"

definition MSG_NO_VOICE_PRINT :: pystr where
  "MSG_NO_VOICE_PRINT = ascii ''Empreinte vocale non trouv'' @ [233, 101]"

text \<open>
  The voice print is one file, \<^verbatim>\<open>BASE_DIR/theodore_voice_print.pt\<close>, whatever the video:
  whether it exists is an argument of the worker beside the video, and a batch has one
  value of it for all its videos. The body of the worker is one \<^verbatim>\<open>try\<close> whose handler
  stores \<^verbatim>\<open>str(e)\<close> in the result; the status becomes \<^verbatim>\<open>'success'\<close> only after the
  consolidation.
\<close>

definition analyze_single_video :: "bool \<Rightarrow> video_task \<Rightarrow> result" where
  "analyze_single_video voice_print_exists task =
     (let result = \<lparr>r_video = video_name task, r_status = StatusError, r_segments = [],
                     r_total_duration = 0, r_theodore_duration = 0, r_error = None\<rparr>
      in if \<not> voice_print_exists then result\<lparr>r_error := Some MSG_NO_VOICE_PRINT\<rparr>
         else case prepared task of
           Inl e \<Rightarrow> result\<lparr>r_error := Some (str_exn e)\<rparr>
         | Inr (duration, sr, windows) \<Rightarrow>
             (let result = result\<lparr>r_total_duration := duration\<rparr>
              in case batch_scan sr 0 windows [] of
                Inl e \<Rightarrow> result\<lparr>r_error := Some (str_exn e)\<rparr>
              | Inr matches \<Rightarrow>
                  (let result =
                         (if matches \<noteq> []
                          then result\<lparr>r_segments := batch_consolidate matches,
                                      r_theodore_duration :=
                                        sum_list (map (\<lambda>s. snd s - fst s) (batch_consolidate matches))\<rparr>
                          else result);
                       result = result\<lparr>r_status := StatusSuccess\<rparr>
                   in case cleanup task of
                        Some e \<Rightarrow> result\<lparr>r_error := Some (str_exn e)\<rparr>
                      | None \<Rightarrow> result)))"












section \<open>The timestamp file: writing and reading (detect\_theodore.py, generate\_shorts.py)\<close>

subsection \<open>Operations on Python strings\<close>

text \<open>
  The characters the reader looks for, as code points. For the characters outside ASCII
  the reader depends on two tables of the Unicode database, which are parameters of the
  model: the characters \<^verbatim>\<open>str.isdigit\<close> accepts, and the decimal digits \<^verbatim>\<open>int\<close> accepts with
  their values. What Python does with ASCII characters is written out.
\<close>

definition ARROW :: nat where "ARROW = 8594"
definition LF :: nat where "LF = 10"
definition CR :: nat where "CR = 13"

record unicode_tables =
  u_isdigit :: "nat \<Rightarrow> bool"
  u_decimal :: "nat \<Rightarrow> nat option"

text \<open>
  \<^verbatim>\<open>str.strip()\<close> removes the characters of \<^verbatim>\<open>str.isspace\<close> at both ends;
  \<^verbatim>\<open>sep in line\<close> for a separator of one character is membership; \<^verbatim>\<open>str.split(sep)\<close> for a
  separator of one character.
\<close>

definition py_isspace :: "nat \<Rightarrow> bool" where
  "py_isspace c \<longleftrightarrow>
     (9 \<le> c \<and> c \<le> 13) \<or> (28 \<le> c \<and> c \<le> 32) \<or> c = 133 \<or> c = 160 \<or> c = 5760 \<or>
     (8192 \<le> c \<and> c \<le> 8202) \<or> c = 8232 \<or> c = 8233 \<or> c = 8239 \<or> c = 8287 \<or> c = 12288"

definition py_strip :: "pystr \<Rightarrow> pystr" where
  "py_strip s = rev (dropWhile py_isspace (rev (dropWhile py_isspace s)))"

definition py_isdigit :: "unicode_tables \<Rightarrow> nat \<Rightarrow> bool" where
  "py_isdigit U c \<longleftrightarrow> (48 \<le> c \<and> c \<le> 57) \<or> (128 \<le> c \<and> u_isdigit U c)"

fun py_split :: "nat \<Rightarrow> pystr \<Rightarrow> pystr list" where
  "py_split sep [] = [[]]"
| "py_split sep (c # cs) =
     (if c = sep then [] # py_split sep cs
      else (case py_split sep cs of p # ps \<Rightarrow> (c # p) # ps | [] \<Rightarrow> [[c]]))"

text \<open>
  The two exceptions the reader catches, indexing, and \<^verbatim>\<open>int(s)\<close>: white space around,
  an optional sign, then decimal digits with single underscores between them. The white
  space \<^verbatim>\<open>int\<close> skips is narrower in ASCII than that of \<^verbatim>\<open>strip\<close>. The limit CPython 3.11
  places on the number of digits of a conversion (4300 by default) is not modelled.
\<close>

datatype py_error = ValueError | IndexError

definition py_index :: "'a list \<Rightarrow> nat \<Rightarrow> py_error + 'a" where
  "py_index xs i = (if i < length xs then Inr (xs ! i) else Inl IndexError)"

definition int_isspace :: "nat \<Rightarrow> bool" where
  "int_isspace c \<longleftrightarrow> (9 \<le> c \<and> c \<le> 13) \<or> c = 32 \<or> (128 \<le> c \<and> py_isspace c)"

definition digit_of :: "unicode_tables \<Rightarrow> nat \<Rightarrow> nat option" where
  "digit_of U c =
     (if 48 \<le> c \<and> c \<le> 57 then Some (c - 48)
      else if 128 \<le> c then u_decimal U c else None)"

fun digits_value :: "unicode_tables \<Rightarrow> bool \<Rightarrow> nat \<Rightarrow> pystr \<Rightarrow> nat option" where
  "digits_value U prev acc [] = (if prev then Some acc else None)"
| "digits_value U prev acc (c # cs) =
     (if c = 95 then (if prev then digits_value U False acc cs else None)
      else case digit_of U c of
             None \<Rightarrow> None
           | Some d \<Rightarrow> digits_value U True (10 * acc + d) cs)"

definition py_int :: "unicode_tables \<Rightarrow> pystr \<Rightarrow> py_error + int" where
  "py_int U s =
     (let t = dropWhile int_isspace s;
          negative = (t \<noteq> [] \<and> hd t = 45);
          t = (if t \<noteq> [] \<and> (hd t = 45 \<or> hd t = 43) then tl t else t);
          t = rev (dropWhile int_isspace (rev t))
      in case digits_value U False 0 t of
           None \<Rightarrow> Inl ValueError
         | Some n \<Rightarrow> Inr (if negative then - int n else int n))"

subsection \<open>Writing (detect\_theodore.py, step 8)\<close>

text \<open>
  \<^verbatim>\<open>str(n)\<close> for an integer, and the format \<^verbatim>\<open>{n:02d}\<close>: at least two characters, the sign
  included, filled with zeros.
\<close>

function digits :: "nat \<Rightarrow> pystr" where
  "digits n = (if n < 10 then [48 + n] else digits (n div 10) @ [48 + n mod 10])"
  by pat_completeness auto
termination
  by (relation "measure id") auto

declare digits.simps [simp del]

definition py_str_int :: "int \<Rightarrow> pystr" where
  "py_str_int i = (if i < 0 then 45 # digits (nat (- i)) else digits (nat i))"

definition zfill :: "nat \<Rightarrow> pystr \<Rightarrow> pystr" where
  "zfill width s = replicate (width - length s) 48 @ s"

definition format_02d :: "int \<Rightarrow> pystr" where
  "format_02d i = (if i < 0 then 45 # zfill 1 (digits (nat (- i))) else zfill 2 (digits (nat i)))"

text \<open>
  \<^verbatim>\<open>format_time\<close>. The seconds are integers in the detector and floats in general; they are
  modelled as real numbers, \<^verbatim>\<open>//\<close> and \<^verbatim>\<open>%\<close> as the floor division and its remainder, and
  \<^verbatim>\<open>int\<close> as truncation towards zero.
\<close>

definition py_floordiv :: "real \<Rightarrow> real \<Rightarrow> real" where
  "py_floordiv x y = of_int \<lfloor>x / y\<rfloor>"

definition py_mod :: "real \<Rightarrow> real \<Rightarrow> real" where
  "py_mod x y = x - y * of_int \<lfloor>x / y\<rfloor>"

definition py_int_of_float :: "real \<Rightarrow> int" where
  "py_int_of_float x = (if x < 0 then \<lceil>x\<rceil> else \<lfloor>x\<rfloor>)"

definition format_time :: "real \<Rightarrow> pystr" where
  "format_time seconds =
     (let hours = py_int_of_float (py_floordiv seconds 3600);
          minutes = py_int_of_float (py_floordiv (py_mod seconds 3600) 60);
          secs = py_int_of_float (py_mod seconds 60)
      in format_02d hours @ [58] @ format_02d minutes @ [58] @ format_02d secs)"

text \<open>
  What is written to the file: the two header lines, then one line per segment, numbered
  from one. The detector writes the file only when there is at least one segment;
  otherwise the file stays as it was.
\<close>

definition HEADER :: pystr where
  "HEADER = ascii ''S'' @ [233] @ ascii ''quences o'' @ [249] @ ascii '' le Fr'' @ [232] @
            ascii ''re Th'' @ [233] @ ascii ''odore parle:''"

fun write_lines :: "int \<Rightarrow> (real \<times> real) list \<Rightarrow> pystr" where
  "write_lines i [] = []"
| "write_lines i (seg # rest) =
     (py_str_int i @ ascii ''. '' @ format_time (fst seg) @ [32, ARROW, 32] @
      format_time (snd seg) @ [LF]) @ write_lines (i + 1) rest"

definition write_timestamps :: "(real \<times> real) list \<Rightarrow> pystr" where
  "write_timestamps consolidated_segments =
     HEADER @ [LF] @ replicate 40 61 @ [LF, LF] @ write_lines 1 consolidated_segments"

definition save_timestamps :: "(real \<times> real) list \<Rightarrow> pystr option \<Rightarrow> pystr option" where
  "save_timestamps consolidated_segments timestamps_file =
     (if consolidated_segments \<noteq> [] then Some (write_timestamps consolidated_segments)
      else timestamps_file)"


subsection \<open>Reading (generate\_shorts.py)\<close>

text \<open>
  The lines of a text file as \<^verbatim>\<open>for line in f\<close> gives them, without their terminators
  (\<^verbatim>\<open>\n\<close>, \<^verbatim>\<open>\r\<close> or \<^verbatim>\<open>\r\n\<close>), which \<^verbatim>\<open>line.strip()\<close> removes at once.
\<close>

definition skip_lf :: "pystr \<Rightarrow> pystr" where
  "skip_lf cs = (case cs of [] \<Rightarrow> [] | d # ds \<Rightarrow> if d = LF then ds else cs)"

function file_lines :: "pystr \<Rightarrow> pystr list" where
  "file_lines [] = []"
| "file_lines (c # cs) =
     (if c = LF then [] # file_lines cs
      else if c = CR then [] # file_lines (skip_lf cs)
      else (case file_lines cs of [] \<Rightarrow> [[c]] | l # ls \<Rightarrow> (c # l) # ls))"
  by pat_completeness auto
termination
  by (relation "measure length") (auto simp: skip_lf_def split: list.splits)

text \<open>
  \<^verbatim>\<open>int(parts[0]) * 3600 + int(parts[1]) * 60 + int(parts[2])\<close>, evaluated from left to
  right: the first exception ends the evaluation.
\<close>

definition bind_err :: "py_error + 'a \<Rightarrow> ('a \<Rightarrow> py_error + 'b) \<Rightarrow> py_error + 'b" where
  "bind_err r f = (case r of Inl e \<Rightarrow> Inl e | Inr x \<Rightarrow> f x)"

definition hms_seconds :: "unicode_tables \<Rightarrow> pystr list \<Rightarrow> py_error + int" where
  "hms_seconds U parts =
     bind_err (py_index parts 0) (\<lambda>p0. bind_err (py_int U p0) (\<lambda>h.
     bind_err (py_index parts 1) (\<lambda>p1. bind_err (py_int U p1) (\<lambda>m.
     bind_err (py_index parts 2) (\<lambda>p2. bind_err (py_int U p2) (\<lambda>s.
     Inr (h * 3600 + m * 60 + s)))))))"

text \<open>
  The body of the loop for one line: \<open>None\<close> when the line is passed over, by one of the
  tests or by \<^verbatim>\<open>except (ValueError, IndexError): continue\<close>. A line that contains the arrow
  is not empty, and a split never gives an empty list.
\<close>

definition parse_line :: "unicode_tables \<Rightarrow> pystr \<Rightarrow> (int \<times> int) option" where
  "parse_line U raw =
     (let line = py_strip raw
      in if ARROW \<in> set line \<and> (case line of [] \<Rightarrow> False | c # cs \<Rightarrow> py_isdigit U c)
         then (let parts = py_split ARROW line
               in if length parts = 2
                  then (let start_str = py_strip (last (py_split 46 (parts ! 0)));
                            end_str = py_strip (parts ! 1);
                            start_parts = py_split 58 start_str;
                            end_parts = py_split 58 end_str
                        in case bind_err (hms_seconds U start_parts) (\<lambda>start_sec.
                                bind_err (hms_seconds U end_parts) (\<lambda>end_sec.
                                Inr (start_sec, end_sec))) of
                             Inl e \<Rightarrow> None
                           | Inr seg \<Rightarrow> Some seg)
                  else None)
         else None)"

text \<open>The loop over the lines; a missing file gives the empty list.\<close>

fun read_lines :: "unicode_tables \<Rightarrow> pystr list \<Rightarrow> (int \<times> int) list \<Rightarrow> (int \<times> int) list" where
  "read_lines U [] segments = segments"
| "read_lines U (raw # rest) segments =
     read_lines U rest (case parse_line U raw of None \<Rightarrow> segments | Some seg \<Rightarrow> segments @ [seg])"

definition read_timestamps :: "unicode_tables \<Rightarrow> pystr option \<Rightarrow> (int \<times> int) list" where
  "read_timestamps U timestamps_file =
     (case timestamps_file of None \<Rightarrow> [] | Some content \<Rightarrow> read_lines U (file_lines content) [])"

text \<open>Tables without any digit outside ASCII, for examples.\<close>

definition ascii_only :: unicode_tables where
  "ascii_only = \<lparr>u_isdigit = (\<lambda>c. False), u_decimal = (\<lambda>c. None)\<rparr>"

subsection \<open>Notions for the proofs\<close>

text \<open>
  A string of ASCII digits and the number it denotes; a string of digits and colons that
  starts and ends with a digit.
\<close>

definition digit_string :: "pystr \<Rightarrow> bool" where
  "digit_string s \<longleftrightarrow> s \<noteq> [] \<and> (\<forall>c \<in> set s. 48 \<le> c \<and> c \<le> 57)"

definition dec_value :: "pystr \<Rightarrow> nat \<Rightarrow> nat" where
  "dec_value s acc = fold (\<lambda>c a. 10 * a + (c - 48)) s acc"


definition time_string :: "pystr \<Rightarrow> bool" where
  "time_string t \<longleftrightarrow>
     t \<noteq> [] \<and> (\<forall>c \<in> set t. 48 \<le> c \<and> c \<le> 58) \<and>
     48 \<le> hd t \<and> hd t \<le> 57 \<and> 48 \<le> last t \<and> last t \<le> 57"

section \<open>Properties of the consolidation\<close>

lemma close_run_eq:
  "cs \<le> ce \<Longrightarrow> close_run cs ce acc = acc @ [run_segment (cs, ce)]"
  by (simp add: close_run_def run_segment_def MIN_CONSECUTIVE_SEGMENTS_def)

lemma consolidate_loop_runs:
  "cs \<le> ce \<Longrightarrow> sorted_wrt (<) (ce # ds) \<Longrightarrow>
   consolidate_loop cs ce acc ds = acc @ map run_segment (runs_loop cs ce ds)"
proof (induction ds arbitrary: cs ce acc)
  case Nil
  then show ?case by (simp add: close_run_eq)
next
  case (Cons idx rest)
  have lt: "ce < idx" using Cons.prems(2) by simp
  have srt: "sorted_wrt (<) (idx # rest)" using Cons.prems(2) by simp
  show ?case
  proof (cases "idx = ce + 1")
    case True
    have "cs \<le> idx" using Cons.prems(1) lt by simp
    from Cons.IH[OF this srt] True show ?thesis by simp
  next
    case False
    have "idx \<le> idx" by simp
    from Cons.IH[OF this srt] False Cons.prems(1) show ?thesis
      by (simp add: close_run_eq)
  qed
qed

lemma consolidate_runs:
  "sorted_wrt (<) ds \<Longrightarrow> consolidate ds = map run_segment (runs_of ds)"
proof (cases ds)
  case Nil
  then show ?thesis by simp
next
  case (Cons d rest)
  assume "sorted_wrt (<) ds"
  with Cons have "sorted_wrt (<) (d # rest)" by simp
  from consolidate_loop_runs[OF order_refl this, of "[]"] Cons show ?thesis by simp
qed

lemma runs_loop_props:
  "cs \<le> ce \<Longrightarrow> sorted_wrt (<) (ce # ds) \<Longrightarrow>
   list_all (\<lambda>r. fst r \<le> snd r) (runs_loop cs ce ds) \<and>
   concat (map run_indices (runs_loop cs ce ds)) = [cs..ce] @ ds \<and>
   successively run_gap (runs_loop cs ce ds) \<and>
   fst (hd (runs_loop cs ce ds)) = cs \<and> runs_loop cs ce ds \<noteq> []"
proof (induction ds arbitrary: cs ce)
  case Nil
  then show ?case by (simp add: run_indices_def)
next
  case (Cons idx rest)
  have lt: "ce < idx" using Cons.prems(2) by simp
  have srt: "sorted_wrt (<) (idx # rest)" using Cons.prems(2) by simp
  show ?case
  proof (cases "idx = ce + 1")
    case True
    have le: "cs \<le> idx" using Cons.prems(1) lt by simp
    have "[cs..ce + 1] = [cs..ce] @ [ce + 1]"
      using Cons.prems(1) upto_rec2[of cs "ce + 1"] by simp
    with Cons.IH[OF le srt] True show ?thesis by simp
  next
    case False
    note IH = Cons.IH[OF order_refl srt]
    from IH obtain r rs where rs: "runs_loop idx idx rest = r # rs"
      by (cases "runs_loop idx idx rest") auto
    with IH have "fst r = idx" by simp
    with lt False have gap: "run_gap (cs, ce) r" by (simp add: run_gap_def)
    from IH have c: "concat (map run_indices (runs_loop idx idx rest)) = idx # rest" by simp
    from IH have a: "list_all (\<lambda>r. fst r \<le> snd r) (runs_loop idx idx rest)" by simp
    from IH rs gap have s: "successively run_gap ((cs, ce) # runs_loop idx idx rest)" by simp
    from False have e: "runs_loop cs ce (idx # rest) = (cs, ce) # runs_loop idx idx rest" by simp
    have ri: "run_indices (cs, ce) = [cs..ce]" by (simp add: run_indices_def)
    show ?thesis unfolding e using a c s Cons.prems(1) ri
      by simp
  qed
qed

lemma maximal_runs_runs_of:
  "sorted_wrt (<) ds \<Longrightarrow> maximal_runs ds (runs_of ds)"
proof (cases ds)
  case Nil
  then show ?thesis by (simp add: maximal_runs_def)
next
  case (Cons d rest)
  assume "sorted_wrt (<) ds"
  with Cons have "sorted_wrt (<) (d # rest)" by simp
  from runs_loop_props[OF order_refl this] Cons show ?thesis
    by (simp add: maximal_runs_def)
qed

lemma runs_tail_head:
  assumes "list_all (\<lambda>r. fst r \<le> snd r) rs" and "successively run_gap ((a, b) # rs)"
  shows "concat (map run_indices rs) = [] \<or> b + 1 < hd (concat (map run_indices rs))"
proof (cases rs)
  case Nil
  then show ?thesis by simp
next
  case (Cons r rs')
  with assms have "fst r \<le> snd r" and "b + 1 < fst r" by (simp_all add: run_gap_def)
  moreover from \<open>fst r \<le> snd r\<close> have "[fst r..snd r] = fst r # [fst r + 1..snd r]"
    by (rule upto_rec1)
  ultimately show ?thesis using Cons by (simp add: run_indices_def)
qed

lemma upto_append_le:
  assumes "a \<le> b" and "b < d" and "[a..b] @ xs = [a..d] @ ys"
  shows "xs \<noteq> [] \<and> hd xs = b + 1"
proof -
  have "[a..d] = [a..b] @ [b + 1..d]" using assms(1,2) upto_split2[of a b d] by linarith
  with assms(3) have "[a..b] @ xs = [a..b] @ ([b + 1..d] @ ys)" by (simp only: append_assoc)
  then have xs: "xs = [b + 1..d] @ ys" by (simp only: same_append_eq)
  have "[b + 1..d] = (b + 1) # [b + 1 + 1..d]" using assms(2) upto_rec1[of "b + 1" d] by linarith
  with xs show ?thesis by simp
qed

lemma upto_append_unique:
  assumes "a \<le> b" and "a \<le> d" and "[a..b] @ xs = [a..d] @ ys"
    and "xs = [] \<or> b + 1 < hd xs" and "ys = [] \<or> d + 1 < hd ys"
  shows "b = d \<and> xs = ys"
proof -
  have "\<not> b < d" using upto_append_le[OF assms(1) _ assms(3)] assms(4) by auto
  moreover have "\<not> d < b" using upto_append_le[OF assms(2) _ assms(3)[symmetric]] assms(5) by auto
  ultimately have "b = d" by simp
  with assms(3) show ?thesis by simp
qed

lemma maximal_runs_unique:
  "maximal_runs ds r1 \<Longrightarrow> maximal_runs ds r2 \<Longrightarrow> r1 = r2"
proof (induction r1 arbitrary: r2 ds)
  case Nil
  then have "ds = []" by (simp add: maximal_runs_def)
  show ?case
  proof (cases r2)
    case (Cons r rs)
    with Nil.prems(2) \<open>ds = []\<close> show ?thesis
      by (cases r) (auto simp: maximal_runs_def run_indices_def)
  qed simp
next
  case (Cons p ps)
  obtain a b where p: "p = (a, b)" by (cases p)
  from Cons.prems(1) p have ab: "a \<le> b" and aps: "list_all (\<lambda>r. fst r \<le> snd r) ps"
    and ds1: "ds = [a..b] @ concat (map run_indices ps)"
    and s1: "successively run_gap ((a, b) # ps)"
    by (auto simp: maximal_runs_def run_indices_def)
  from ab have hd1: "[a..b] = a # [a + 1..b]" by (rule upto_rec1)
  show ?case
  proof (cases r2)
    case Nil
    with Cons.prems(2) ds1 hd1 show ?thesis by (simp add: maximal_runs_def)
  next
    case (Cons q qs)
    obtain c d where q: "q = (c, d)" by (cases q)
    from Cons.prems(2) Cons q have cd: "c \<le> d" and aqs: "list_all (\<lambda>r. fst r \<le> snd r) qs"
      and ds2: "ds = [c..d] @ concat (map run_indices qs)"
      and s2: "successively run_gap ((c, d) # qs)"
      by (auto simp: maximal_runs_def run_indices_def)
    from cd have hd2: "[c..d] = c # [c + 1..d]" by (rule upto_rec1)
    from ds1 ds2 hd1 hd2 have ac: "a = c" by simp
    have eq: "[a..b] @ concat (map run_indices ps) = [a..d] @ concat (map run_indices qs)"
      using ds1 ds2 ac by simp
    from upto_append_unique[OF ab _ eq runs_tail_head[OF aps s1] runs_tail_head[OF aqs]] s2 cd ac
    have bd: "b = d" and tl: "concat (map run_indices ps) = concat (map run_indices qs)"
      by auto
    have m1: "maximal_runs (concat (map run_indices ps)) ps"
      using aps s1 by (auto simp: maximal_runs_def successively_Cons)
    have m2: "maximal_runs (concat (map run_indices ps)) qs"
      using aqs s2 tl by (auto simp: maximal_runs_def successively_Cons)
    from Cons.IH[OF m1 m2] p q ac bd Cons show ?thesis by simp
  qed
qed

lemma sorted_detections:
  "sorted_wrt (<) (map fst scores) \<Longrightarrow> sorted_wrt (<) (detections_of scores)"
  by (simp add: detections_of_def sorted_wrt_map sorted_wrt_filter)

lemma runs_sorted:
  "list_all (\<lambda>r. fst r \<le> snd r) (r # rs) \<Longrightarrow> successively run_gap (r # rs) \<Longrightarrow>
   (\<forall>r' \<in> set rs. snd r + 1 < fst r') \<and> sorted_wrt run_gap (r # rs)"
proof (induction rs arbitrary: r)
  case Nil
  then show ?case by simp
next
  case (Cons q qs)
  from Cons.prems have q: "fst q \<le> snd q" and g: "snd r + 1 < fst q"
    and a: "list_all (\<lambda>r. fst r \<le> snd r) (q # qs)" and s: "successively run_gap (q # qs)"
    by (simp_all add: run_gap_def)
  from Cons.IH[OF a s] have far: "\<forall>r' \<in> set qs. snd q + 1 < fst r'"
    and srt: "sorted_wrt run_gap (q # qs)" by simp_all
  from far q g have far': "\<forall>r' \<in> set qs. snd r + 1 < fst r'" by fastforce
  then have "\<forall>r' \<in> set qs. run_gap r r'" by (simp add: run_gap_def)
  moreover have "run_gap r q" using g by (simp add: run_gap_def)
  ultimately have "sorted_wrt run_gap (r # q # qs)" using srt by simp
  with g far' show ?case by simp
qed

lemma maximal_runs_sorted:
  "maximal_runs ds runs \<Longrightarrow> sorted_wrt run_gap runs"
proof (cases runs)
  case Nil
  then show ?thesis by simp
next
  case (Cons r rs)
  assume "maximal_runs ds runs"
  with Cons have "list_all (\<lambda>r. fst r \<le> snd r) (r # rs)" and "successively run_gap (r # rs)"
    by (simp_all add: maximal_runs_def)
  from runs_sorted[OF this] Cons show ?thesis by blast
qed

lemma run_segment_order:
  "fst r \<le> snd r \<Longrightarrow> fst r' \<le> snd r' \<Longrightarrow> run_gap r r' \<Longrightarrow>
   fst (run_segment r) < fst (run_segment r') \<and> snd (run_segment r) \<le> fst (run_segment r')"
  by (simp add: run_segment_def run_gap_def SEGMENT_DURATION_SEC_def)

text \<open>
  Claim C1. When the scores come in ascending window order, the qualifying indices have
  exactly one decomposition into maximal runs of consecutive indices, and the consolidator
  returns one segment per run, from \<open>first * 3\<close> to \<open>(last + 1) * 3\<close>, in the order of the
  runs. The scores \<open>[(0, 0.97), (1, 0.96), (3, 0.98)]\<close> give \<open>[(0, 6), (9, 12)]\<close>.
\<close>

theorem consolidate_scores_maximal_runs:
  assumes "sorted_wrt (<) (map fst scores)"
  shows "(\<exists>!runs. maximal_runs (detections_of scores) runs) \<and>
         (\<forall>runs. maximal_runs (detections_of scores) runs \<longrightarrow>
                 consolidate_scores scores = map run_segment runs) \<and>
         consolidate_scores [(0, 97 / 100), (1, 96 / 100), (3, 98 / 100)] = [(0, 6), (9, 12)]"
proof -
  let ?ds = "detections_of scores"
  have srt: "sorted_wrt (<) ?ds" using assms by (rule sorted_detections)
  have m: "maximal_runs ?ds (runs_of ?ds)" using srt by (rule maximal_runs_runs_of)
  have u: "runs = runs_of ?ds" if "maximal_runs ?ds runs" for runs
    using that m by (rule maximal_runs_unique)
  have c: "consolidate_scores scores = map run_segment (runs_of ?ds)"
    using srt by (simp add: consolidate_scores_def consolidate_runs)
  have ex: "\<exists>!runs. maximal_runs ?ds runs" using m u by blast
  have all: "\<forall>runs. maximal_runs ?ds runs \<longrightarrow> consolidate_scores scores = map run_segment runs"
    using u c by blast
  have scen: "consolidate_scores [(0, 97 / 100), (1, 96 / 100), (3, 98 / 100)] = [(0, 6), (9, 12)]"
    by (simp add: consolidate_scores_def detections_of_def SIMILARITY_THRESHOLD_def
        close_run_def MIN_CONSECUTIVE_SEGMENTS_def SEGMENT_DURATION_SEC_def)
  from ex all scen show ?thesis by blast
qed

theorem consolidate_scores_maximal_runs_witness:
  "sorted_wrt (<) (map fst [(0::int, 97 / 100 :: real), (1, 96 / 100), (3, 98 / 100)]) \<and>
   maximal_runs (detections_of [(0, 97 / 100), (1, 96 / 100), (3, 98 / 100)]) [(0, 1), (3, 3)] \<and>
   consolidate_scores [(0, 97 / 100), (1, 96 / 100), (3, 98 / 100)] =
     map run_segment [(0, 1), (3, 3)] \<and>
   map run_segment [(0, 1), (3, 3)] = [(0, 6), (9, 12)]"
proof -
  let ?s = "[(0::int, 97 / 100 :: real), (1, 96 / 100), (3, 98 / 100)]"
  have h: "sorted_wrt (<) (map fst ?s)" by simp
  have d: "detections_of ?s = [0, 1, 3]"
    by (simp add: detections_of_def SIMILARITY_THRESHOLD_def)
  have u1: "[0..1] = [0::int, 1]" using upto_rec1[of 0 "1::int"] by simp
  have m: "maximal_runs (detections_of ?s) [(0, 1), (3, 3)]"
    unfolding d by (simp add: maximal_runs_def run_indices_def run_gap_def u1)
  have r: "map run_segment [(0, 1), (3, 3)] = [(0, 6), (9, 12)]"
    by (simp add: run_segment_def SEGMENT_DURATION_SEC_def)
  from consolidate_scores_maximal_runs[OF h] m
  have "consolidate_scores ?s = map run_segment [(0, 1), (3, 3)]" by blast
  with h m r show ?thesis by blast
qed

text \<open>
  Claim C5. When the scores come in ascending window order, the segments returned by the
  consolidator are in ascending order of start time and none begins before an earlier one
  has ended; every segment has a positive duration.
\<close>

theorem consolidate_scores_sorted_disjoint:
  assumes "sorted_wrt (<) (map fst scores)"
  shows "sorted_wrt (\<lambda>s s'. fst s < fst s' \<and> snd s \<le> fst s') (consolidate_scores scores) \<and>
         list_all (\<lambda>s. fst s < snd s) (consolidate_scores scores)"
proof -
  let ?ds = "detections_of scores"
  have srt: "sorted_wrt (<) ?ds" using assms by (rule sorted_detections)
  have m: "maximal_runs ?ds (runs_of ?ds)" using srt by (rule maximal_runs_runs_of)
  have c: "consolidate_scores scores = map run_segment (runs_of ?ds)"
    using srt by (simp add: consolidate_scores_def consolidate_runs)
  have ok: "\<forall>r \<in> set (runs_of ?ds). fst r \<le> snd r"
    using m by (simp add: maximal_runs_def list_all_iff)
  have g: "sorted_wrt run_gap (runs_of ?ds)" using m by (rule maximal_runs_sorted)
  have "sorted_wrt (\<lambda>r r'. fst (run_segment r) < fst (run_segment r') \<and>
                            snd (run_segment r) \<le> fst (run_segment r')) (runs_of ?ds)"
  proof (rule sorted_wrt_mono_rel[OF _ g])
    fix r r' assume "r \<in> set (runs_of ?ds)" "r' \<in> set (runs_of ?ds)" "run_gap r r'"
    with ok show "fst (run_segment r) < fst (run_segment r') \<and>
                  snd (run_segment r) \<le> fst (run_segment r')"
      by (simp add: run_segment_order)
  qed
  then have 1: "sorted_wrt (\<lambda>s s'. fst s < fst s' \<and> snd s \<le> fst s') (consolidate_scores scores)"
    unfolding c by (simp add: sorted_wrt_map)
  have 2: "list_all (\<lambda>s. fst s < snd s) (consolidate_scores scores)"
    unfolding c using ok
    by (auto simp: list_all_iff run_segment_def SEGMENT_DURATION_SEC_def)
  from 1 2 show ?thesis by simp
qed

theorem consolidate_scores_sorted_disjoint_witness:
  "sorted_wrt (<) (map fst [(0::int, 97 / 100 :: real), (1, 96 / 100), (3, 98 / 100)]) \<and>
   consolidate_scores [(0, 97 / 100), (1, 96 / 100), (3, 98 / 100)] = [(0, 6), (9, 12)] \<and>
   sorted_wrt (\<lambda>s s'. fst s < fst s' \<and> snd s \<le> fst s')
     (consolidate_scores [(0, 97 / 100), (1, 96 / 100), (3, 98 / 100)])"
proof -
  let ?s = "[(0::int, 97 / 100 :: real), (1, 96 / 100), (3, 98 / 100)]"
  have h: "sorted_wrt (<) (map fst ?s)" by simp
  have e: "consolidate_scores ?s = [(0, 6), (9, 12)]"
    by (simp add: consolidate_scores_def detections_of_def SIMILARITY_THRESHOLD_def
        close_run_def MIN_CONSECUTIVE_SEGMENTS_def SEGMENT_DURATION_SEC_def)
  from consolidate_scores_sorted_disjoint[OF h] h e show ?thesis by blast
qed

lemma batch_loop_eq:
  "cs \<le> ce \<Longrightarrow> sorted_wrt (<) (ce # map fst ms) \<Longrightarrow>
   batch_consolidate_loop (cs * 3) ((ce + 1) * 3) acc (map (\<lambda>(i, sim). new_match i sim) ms) =
   consolidate_loop cs ce acc (map fst ms)"
proof (induction ms arbitrary: cs ce acc)
  case Nil
  then show ?case by (simp add: close_run_eq run_segment_def SEGMENT_DURATION_SEC_def)
next
  case (Cons m rest)
  obtain i sim where m: "m = (i, sim)" by (cases m)
  have lt: "ce < i" using Cons.prems(2) m by simp
  have srt: "sorted_wrt (<) (i # map fst rest)" using Cons.prems(2) m by simp
  show ?case
  proof (cases "i = ce + 1")
    case True
    have "cs \<le> i" using Cons.prems(1) lt by simp
    from Cons.IH[OF this srt, of acc] True m show ?thesis
      by (simp add: new_match_def batch_SEGMENT_DURATION_SEC_def)
  next
    case False
    with lt have "\<not> i * 3 \<le> (ce + 1) * 3" by simp
    with Cons.IH[OF order_refl srt] False m Cons.prems(1) show ?thesis
      by (simp add: new_match_def batch_SEGMENT_DURATION_SEC_def close_run_eq run_segment_def
          SEGMENT_DURATION_SEC_def)
  qed
qed

text \<open>
  Claim C10. On the same strictly ascending list of matched window indices, the merge of
  time intervals in the batch worker returns the same list of segments as the merge of
  adjacent indices in the single-file detector.
\<close>

theorem batch_consolidate_agrees:
  assumes "sorted_wrt (<) (map fst ms)"
  shows "batch_consolidate (map (\<lambda>(i, sim). new_match i sim) ms) = consolidate (map fst ms)"
proof (cases ms)
  case Nil
  then show ?thesis by simp
next
  case (Cons m rest)
  obtain i sim where m: "m = (i, sim)" by (cases m)
  from assms Cons m have "sorted_wrt (<) (i # map fst rest)" by simp
  from batch_loop_eq[OF order_refl this, of "[]"] Cons m show ?thesis
    by (simp add: new_match_def batch_SEGMENT_DURATION_SEC_def)
qed

theorem batch_consolidate_agrees_witness:
  "sorted_wrt (<) (map fst [(0::int, 97 / 100 :: real), (1, 96 / 100), (3, 98 / 100)]) \<and>
   batch_consolidate (map (\<lambda>(i, sim). new_match i sim) [(0, 97 / 100), (1, 96 / 100), (3, 98 / 100)])
     = [(0, 6), (9, 12)] \<and>
   consolidate (map fst [(0::int, 97 / 100 :: real), (1, 96 / 100), (3, 98 / 100)]) = [(0, 6), (9, 12)]"
proof -
  let ?ms = "[(0::int, 97 / 100 :: real), (1, 96 / 100), (3, 98 / 100)]"
  have h: "sorted_wrt (<) (map fst ?ms)" by simp
  have e: "consolidate (map fst ?ms) = [(0, 6), (9, 12)]"
    by (simp add: close_run_def MIN_CONSECUTIVE_SEGMENTS_def SEGMENT_DURATION_SEC_def)
  from batch_consolidate_agrees[OF h] h e show ?thesis by simp
qed

section \<open>Properties of the splitter\<close>

lemmas split_defs = split_into_shorts_def split_segment_def slice_end_def append_short_def
  SHORT_MIN_DURATION_def SHORT_MAX_DURATION_def SHORT_TARGET_DURATION_def Let_def

lemma split_loop_durations:
  "set (split_loop cs e shorts) \<subseteq>
     set shorts \<union> {c. SHORT_MIN_DURATION \<le> snd c - fst c \<and>
                       snd c - fst c < SHORT_TARGET_DURATION + SHORT_MIN_DURATION}"
proof (induction cs e shorts rule: split_loop.induct)
  case (1 cs e shorts)
  show ?case
  proof (cases "cs < e")
    case True
    have "set (append_short cs (slice_end cs e) shorts) \<subseteq>
            set shorts \<union> {c. SHORT_MIN_DURATION \<le> snd c - fst c \<and>
                       snd c - fst c < SHORT_TARGET_DURATION + SHORT_MIN_DURATION}"
      by (auto simp: append_short_def slice_end_def Let_def SHORT_MIN_DURATION_def
          SHORT_TARGET_DURATION_def min_def split: if_splits)
    with "1.IH"[OF True] True show ?thesis
      by (subst split_loop.simps) auto
  next
    case False
    then show ?thesis by (subst split_loop.simps) simp
  qed
qed

lemma split_loop_append_all:
  fixes d :: "(real \<times> real) list"
  shows "\<forall>shorts. split_loop cs e shorts = shorts @ split_loop cs e []"
proof (induction cs e d rule: split_loop.induct)
  case (1 cs e d)
  show ?case
  proof (cases "cs < e")
    case True
    let ?ce = "slice_end cs e"
    note IH = "1.IH"[OF True, rule_format]
    show ?thesis
    proof
      fix shorts
      have a: "append_short cs ?ce shorts = shorts @ append_short cs ?ce []"
        by (simp add: append_short_def)
      have "split_loop cs e shorts = split_loop ?ce e (append_short cs ?ce shorts)"
        using True by (subst split_loop.simps) simp
      also have "\<dots> = append_short cs ?ce shorts @ split_loop ?ce e []"
        by (rule IH)
      also have "\<dots> = shorts @ (append_short cs ?ce [] @ split_loop ?ce e [])"
        using a by simp
      also have "append_short cs ?ce [] @ split_loop ?ce e [] = split_loop ?ce e (append_short cs ?ce [])"
        by (rule IH[symmetric])
      also have "split_loop ?ce e (append_short cs ?ce []) = split_loop cs e []"
        using True by (subst (2) split_loop.simps) simp
      finally show "split_loop cs e shorts = shorts @ split_loop cs e []" .
    qed
  next
    case False
    then show ?thesis by (simp add: split_loop.simps)
  qed
qed

lemma split_segment_append:
  "split_segment seg shorts = shorts @ split_segment seg []"
proof (cases "snd seg - fst seg \<le> SHORT_MAX_DURATION")
  case True
  then show ?thesis by (simp add: split_segment_def Let_def)
next
  case False
  then have "split_segment seg shorts = split_loop (fst seg) (snd seg) shorts"
    and "split_segment seg [] = split_loop (fst seg) (snd seg) []"
    by (simp_all add: split_segment_def Let_def)
  with split_loop_append_all[of "fst seg" "snd seg", rule_format, of shorts]
  show ?thesis by (simp only:)
qed

lemma split_segments_append:
  "split_segments segments shorts = shorts @ split_segments segments []"
proof (induction segments arbitrary: shorts)
  case Nil
  show ?case by simp
next
  case (Cons seg rest)
  have "split_segments (seg # rest) shorts = split_segment seg shorts @ split_segments rest []"
    using Cons.IH[of "split_segment seg shorts"] by simp
  also have "\<dots> = shorts @ (split_segment seg [] @ split_segments rest [])"
    using split_segment_append[of seg shorts] by simp
  also have "split_segment seg [] @ split_segments rest [] = split_segments (seg # rest) []"
    using Cons.IH[of "split_segment seg []"] by simp
  finally show ?case .
qed

lemma split_into_shorts_Cons:
  "split_into_shorts (seg # rest) = split_segment seg [] @ split_into_shorts rest"
  using split_segments_append[of rest "split_segment seg []"]
  by (simp add: split_into_shorts_def)

lemma split_into_shorts_append:
  "split_into_shorts (xs @ ys) = split_into_shorts xs @ split_into_shorts ys"
proof (induction xs)
  case Nil
  show ?case by (simp add: split_into_shorts_def)
next
  case (Cons seg rest)
  then show ?case by (simp add: split_into_shorts_Cons)
qed

lemma split_segment_durations:
  "set (split_segment seg []) \<subseteq>
     {c. SHORT_MIN_DURATION \<le> snd c - fst c \<and> snd c - fst c \<le> SHORT_MAX_DURATION}"
proof (cases "snd seg - fst seg \<le> SHORT_MAX_DURATION")
  case True
  then show ?thesis by (auto simp: split_segment_def Let_def)
next
  case False
  have "SHORT_TARGET_DURATION + SHORT_MIN_DURATION \<le> SHORT_MAX_DURATION"
    by (simp add: SHORT_TARGET_DURATION_def SHORT_MIN_DURATION_def SHORT_MAX_DURATION_def)
  with split_loop_durations[of "fst seg" "snd seg" "[]"] False show ?thesis
    by (auto simp: split_segment_def Let_def)
qed

lemma split_segment_short:
  "snd seg - fst seg < SHORT_MIN_DURATION \<Longrightarrow> split_segment seg [] = []"
  by (simp add: split_segment_def Let_def SHORT_MIN_DURATION_def SHORT_MAX_DURATION_def)

lemma split_into_shorts_durations:
  "set (split_into_shorts segments) \<subseteq>
     {c. SHORT_MIN_DURATION \<le> snd c - fst c \<and> snd c - fst c \<le> SHORT_MAX_DURATION}"
proof (induction segments)
  case Nil
  show ?case by (simp add: split_into_shorts_def)
next
  case (Cons seg rest)
  with split_segment_durations[of seg] show ?case
    by (simp add: split_into_shorts_Cons)
qed

text \<open>
  Claim C2. Every clip returned by the splitter lasts at least the minimum and at most the
  maximum duration; a clip cut from a segment longer than the maximum, the one that has
  absorbed a short remainder included, lasts less than target plus minimum, hence less
  than maximum plus minimum. A segment shorter than the minimum yields no clip: the result
  is the same as without it.
\<close>

theorem split_into_shorts_bounds:
  "(\<forall>c \<in> set (split_into_shorts segments).
      SHORT_MIN_DURATION \<le> snd c - fst c \<and> snd c - fst c \<le> SHORT_MAX_DURATION) \<and>
   (SHORT_MAX_DURATION < e - s \<longrightarrow>
      (\<forall>c \<in> set (split_into_shorts [(s, e)]).
         snd c - fst c < SHORT_TARGET_DURATION + SHORT_MIN_DURATION)) \<and>
   (e - s < SHORT_MIN_DURATION \<longrightarrow>
      split_into_shorts (before @ [(s, e)] @ after) = split_into_shorts (before @ after))"
proof -
  have 1: "\<forall>c \<in> set (split_into_shorts segments).
      SHORT_MIN_DURATION \<le> snd c - fst c \<and> snd c - fst c \<le> SHORT_MAX_DURATION"
    using split_into_shorts_durations[of segments] by blast
  have 2: "\<forall>c \<in> set (split_into_shorts [(s, e)]).
         snd c - fst c < SHORT_TARGET_DURATION + SHORT_MIN_DURATION"
    if "SHORT_MAX_DURATION < e - s"
  proof -
    from that have "split_into_shorts [(s, e)] = split_loop s e []"
      by (simp add: split_into_shorts_def split_segment_def Let_def)
    with split_loop_durations[of s e "[]"] show ?thesis by auto
  qed
  have 3: "split_into_shorts (before @ [(s, e)] @ after) = split_into_shorts (before @ after)"
    if "e - s < SHORT_MIN_DURATION"
  proof -
    from that have "split_segment (s, e) [] = []" by (simp add: split_segment_short)
    then show ?thesis by (simp add: split_into_shorts_append split_into_shorts_Cons)
  qed
  from 1 2 3 show ?thesis by blast
qed

theorem split_into_shorts_bounds_witness:
  "split_into_shorts [(0, 75), (100, 102), (200, 262)] =
     [(0, 30), (30, 60), (60, 75), (200, 230), (230, 262)] \<and>
   list_all (\<lambda>c. SHORT_MIN_DURATION \<le> snd c - fst c \<and> snd c - fst c \<le> SHORT_MAX_DURATION)
     (split_into_shorts [(0, 75), (100, 102), (200, 262)]) \<and>
   SHORT_MAX_DURATION < 262 - 200 \<and>
   split_into_shorts [(200, 262)] = [(200, 230), (230, 262)] \<and>
   list_all (\<lambda>c. snd c - fst c < SHORT_TARGET_DURATION + SHORT_MIN_DURATION)
     (split_into_shorts [(200, 262)]) \<and>
   (102 :: real) - 100 < SHORT_MIN_DURATION \<and>
   split_into_shorts ([(0, 75)] @ [(100, 102)] @ [(200, 262)]) =
     split_into_shorts ([(0, 75)] @ [(200, 262)])"
proof -
  have a: "split_into_shorts [(0, 75), (100, 102), (200, 262)] =
     [(0, 30), (30, 60), (60, 75), (200, 230), (230, 262)]"
    by (simp add: split_defs split_loop.simps)
  have b: "split_into_shorts [(200, 262)] = [(200, 230), (230, 262)]"
    by (simp add: split_defs split_loop.simps)
  have c: "SHORT_MAX_DURATION < 262 - 200" "(102 :: real) - 100 < SHORT_MIN_DURATION"
    by (simp_all add: SHORT_MAX_DURATION_def SHORT_MIN_DURATION_def)
  note t = split_into_shorts_bounds[of "[(0, 75), (100, 102), (200, 262)]" 262 200]
  note t' = split_into_shorts_bounds[of "[]" 102 100 "[(0, 75)]" "[(200, 262)]"]
  have t1: "list_all (\<lambda>c. SHORT_MIN_DURATION \<le> snd c - fst c \<and> snd c - fst c \<le> SHORT_MAX_DURATION)
     (split_into_shorts [(0, 75), (100, 102), (200, 262)])"
    unfolding list_all_iff using t by blast
  have t2: "list_all (\<lambda>c. snd c - fst c < SHORT_TARGET_DURATION + SHORT_MIN_DURATION)
     (split_into_shorts [(200, 262)])"
    unfolding list_all_iff using t c by blast
  have t3: "split_into_shorts ([(0, 75)] @ [(100, 102)] @ [(200, 262)]) =
     split_into_shorts ([(0, 75)] @ [(200, 262)])"
    using t' c by blast
  from a b c t1 t2 t3 show ?thesis by blast
qed

text \<open>
  Claim C9 states that a segment with \<open>end < start\<close> is rejected with an error. The
  function has no failure branch; on the segments \<open>(0, 10), (10, 5), (20, 30)\<close> it returns
  the clips of the first and the third and leaves the second out.
\<close>

theorem split_into_shorts_negative_counterexample:
  "split_into_shorts [(0, 10), (10, 5), (20, 30)] = [(0, 10), (20, 30)]"
  by (simp add: split_defs split_loop.simps)

text \<open>
  Claim C9, amended. A segment with \<open>end < start\<close> raises no error and yields no clip: the
  splitter returns what it returns for the other segments alone.
\<close>

theorem split_into_shorts_negative_dropped:
  assumes "snd seg < fst seg"
  shows "split_into_shorts (before @ [seg] @ after) = split_into_shorts (before @ after)"
proof -
  from assms have "snd seg - fst seg < SHORT_MIN_DURATION"
    by (simp add: SHORT_MIN_DURATION_def)
  then have "split_segment seg [] = []" by (rule split_segment_short)
  then show ?thesis by (simp add: split_into_shorts_append split_into_shorts_Cons)
qed

theorem split_into_shorts_negative_dropped_witness:
  "snd (10 :: real, 5 :: real) < fst (10 :: real, 5 :: real) \<and>
   split_into_shorts ([(0, 10)] @ [(10, 5)] @ [(20, 30)]) = split_into_shorts ([(0, 10)] @ [(20, 30)]) \<and>
   split_into_shorts ([(0, 10)] @ [(20, 30)]) = [(0, 10), (20, 30)]"
proof -
  have h: "snd (10 :: real, 5 :: real) < fst (10 :: real, 5 :: real)" by simp
  have e: "split_into_shorts ([(0, 10)] @ [(20, 30)]) = [(0, 10), (20, 30)]"
    by (simp add: split_defs split_loop.simps)
  from split_into_shorts_negative_dropped[OF h, of "[(0, 10)]" "[(20, 30)]"] h e
  show ?thesis by simp
qed

section \<open>Properties of the grouping\<close>

lemmas group_defs = group_words_for_display_def resolve_overlaps_def resolve_step_def
  g_start_def g_end_def g_text_def MIN_WORD_DURATION_def Let_def ascii_def

lemma g_end_swept: "g_end (swept gs j) = g_end (gs ! j)"
  by (simp add: swept_def g_end_def)

lemma resolve_step_length: "length (resolve_step i gs) = length gs"
  by (simp add: resolve_step_def)

lemma resolve_step_other: "j \<noteq> i \<Longrightarrow> resolve_step i gs ! j = gs ! j"
  by (simp add: resolve_step_def)

lemma resolve_step_at:
  assumes "i < length gs"
  shows "resolve_step i gs ! i =
           (max (g_start (gs ! i)) (g_end (gs ! (i - 1))), g_end (gs ! i), g_text (gs ! i))"
proof (cases "g_start (gs ! i) < g_end (gs ! (i - 1))")
  case True
  with assms show ?thesis by (simp add: resolve_step_def max_def)
next
  case False
  then have "max (g_start (gs ! i)) (g_end (gs ! (i - 1))) = g_start (gs ! i)" by simp
  with False show ?thesis
    by (simp add: resolve_step_def g_start_def g_end_def g_text_def)
qed

lemma fold_resolve:
  "m \<le> length gs \<Longrightarrow>
   length (fold resolve_step [1..<m] gs) = length gs \<and>
   (\<forall>j < length gs. fold resolve_step [1..<m] gs ! j =
        (if 0 < j \<and> j < m then swept gs j else gs ! j))"
proof (induction m)
  case 0
  show ?case by simp
next
  case (Suc k)
  show ?case
  proof (cases "k = 0")
    case True
    then show ?thesis by simp
  next
    case False
    let ?r = "fold resolve_step [1..<k] gs"
    from Suc.prems have kl: "k < length gs" by simp
    from Suc.IH kl have len: "length ?r = length gs"
      and nth: "\<And>j. j < length gs \<Longrightarrow> ?r ! j = (if 0 < j \<and> j < k then swept gs j else gs ! j)"
      by simp_all
    from False have upt: "[1..<Suc k] = [1..<k] @ [k]" by simp
    have f: "fold resolve_step [1..<Suc k] gs = resolve_step k ?r"
      unfolding upt by simp
    have rk: "?r ! k = gs ! k" using nth[OF kl] by simp
    have "k - 1 < length gs" using kl by simp
    from nth[OF this] have rk1: "g_end (?r ! (k - 1)) = g_end (gs ! (k - 1))"
      by (simp add: g_end_swept)
    have at: "resolve_step k ?r ! k = swept gs k"
      using resolve_step_at[of k ?r] kl len rk rk1 by (simp add: swept_def)
    have "resolve_step k ?r ! j = (if 0 < j \<and> j < Suc k then swept gs j else gs ! j)"
      if "j < length gs" for j
    proof (cases "j = k")
      case True
      with at False show ?thesis by simp
    next
      case False
      then have "resolve_step k ?r ! j = ?r ! j" by (rule resolve_step_other)
      with nth[OF that] False show ?thesis by auto
    qed
    with len show ?thesis unfolding f by (simp add: resolve_step_length)
  qed
qed

lemma resolve_overlaps_length: "length (resolve_overlaps gs) = length gs"
  using fold_resolve[of "length gs" gs] by (simp add: resolve_overlaps_def)

lemma resolve_overlaps_nth:
  "j < length gs \<Longrightarrow> resolve_overlaps gs ! j = (if 0 < j then swept gs j else gs ! j)"
  using fold_resolve[of "length gs" gs] by (simp add: resolve_overlaps_def)

lemma resolve_overlaps_ordered:
  assumes "0 < i" and "i < length gs"
  shows "g_end (resolve_overlaps gs ! (i - 1)) \<le> g_start (resolve_overlaps gs ! i)"
proof -
  from assms have "i - 1 < length gs" by simp
  then have "g_end (resolve_overlaps gs ! (i - 1)) = g_end (gs ! (i - 1))"
    by (simp add: resolve_overlaps_nth g_end_swept)
  moreover have "g_start (resolve_overlaps gs ! i) = max (g_start (gs ! i)) (g_end (gs ! (i - 1)))"
    using assms by (simp add: resolve_overlaps_nth swept_def g_start_def)
  ultimately show ?thesis by simp
qed

text \<open>
  Claim C3. In the list returned by the grouper no group starts before the previous one
  ends. The sweep keeps the number of groups, every end and every text; it leaves the
  first start as it was and raises any other start to the previous group's end when it
  lies before it; the pass at index \<open>i\<close> changes no group other than the one at \<open>i\<close>.
\<close>

theorem group_words_no_overlap:
  "(\<forall>i. 0 < i \<and> i < length (group_words_for_display ws wpg) \<longrightarrow>
        g_end (group_words_for_display ws wpg ! (i - 1)) \<le>
        g_start (group_words_for_display ws wpg ! i)) \<and>
   length (resolve_overlaps gs) = length gs \<and>
   (\<forall>i < length gs.
        g_start (resolve_overlaps gs ! i) =
          (if 0 < i then max (g_start (gs ! i)) (g_end (gs ! (i - 1))) else g_start (gs ! i)) \<and>
        g_end (resolve_overlaps gs ! i) = g_end (gs ! i) \<and>
        g_text (resolve_overlaps gs ! i) = g_text (gs ! i)) \<and>
   (\<forall>i j. j \<noteq> i \<longrightarrow> resolve_step i gs ! j = gs ! j)"
proof -
  have 1: "g_end (group_words_for_display ws wpg ! (i - 1)) \<le>
           g_start (group_words_for_display ws wpg ! i)"
    if "0 < i \<and> i < length (group_words_for_display ws wpg)" for i
  proof (cases "ws = []")
    case True
    with that show ?thesis by (simp add: group_words_for_display_def)
  next
    case False
    with that have "i < length (group_loop wpg ws [] [])"
      by (simp add: group_words_for_display_def resolve_overlaps_length)
    with that resolve_overlaps_ordered[of i "group_loop wpg ws [] []"] False
    show ?thesis by (simp add: group_words_for_display_def)
  qed
  have 2: "g_start (resolve_overlaps gs ! i) =
          (if 0 < i then max (g_start (gs ! i)) (g_end (gs ! (i - 1))) else g_start (gs ! i)) \<and>
        g_end (resolve_overlaps gs ! i) = g_end (gs ! i) \<and>
        g_text (resolve_overlaps gs ! i) = g_text (gs ! i)" if "i < length gs" for i
    using that by (simp add: resolve_overlaps_nth swept_def g_start_def g_end_def g_text_def)
  from 1 2 show ?thesis
    by (simp add: resolve_overlaps_length resolve_step_other)
qed

lemma make_group_positive:
  "cg \<noteq> [] \<Longrightarrow> g_start (make_group cg) < g_end (make_group cg)"
  by (cases cg) (auto simp: g_start_def g_end_def Let_def MIN_WORD_DURATION_def)

lemma group_loop_positive:
  "\<forall>g \<in> set groups. g_start g < g_end g \<Longrightarrow>
   \<forall>g \<in> set (group_loop wpg ws cg groups). g_start g < g_end g"
proof (induction ws arbitrary: cg groups)
  case Nil
  then show ?case by (simp add: make_group_positive)
next
  case (Cons w rest)
  have "\<forall>g \<in> set (groups @ [make_group (cg @ [w])]). g_start g < g_end g"
    using Cons.prems by (simp add: make_group_positive)
  from Cons.IH[OF this] Cons.IH[OF Cons.prems] show ?case by simp
qed

lemma div_step: "0 < k \<Longrightarrow> (k + n + k - 1) div k = Suc ((n + k - 1) div k)" for k n :: nat
proof -
  assume k: "0 < k"
  then have "k + n + k - 1 = (n + k - 1) + k" by simp
  then have "(k + n + k - 1) div k = ((n + k - 1) + k) div k" by (simp only:)
  also have "\<dots> = (n + k - 1) div k + 1" using k by (simp only: div_add_self2)
  finally show ?thesis by simp
qed

lemma div_one_chunk: "0 < m \<Longrightarrow> m < k \<Longrightarrow> (m + k - 1) div k = 1" for k m :: nat
proof -
  assume m: "0 < m" "m < k"
  then have "m + k - 1 = (m - 1) + k" by simp
  then have "(m + k - 1) div k = ((m - 1) + k) div k" by (simp only:)
  also have "\<dots> = (m - 1) div k + 1" using m by (simp only: div_add_self2)
  also have "(m - 1) div k = 0" using m by simp
  finally show ?thesis by simp
qed

lemma group_loop_length:
  fixes k :: nat
  assumes "k = nat (max 1 wpg)"
  shows "length cg < k \<Longrightarrow>
         length (group_loop wpg ws cg groups) = length groups + (length cg + length ws + k - 1) div k"
proof (induction ws arbitrary: cg groups)
  case Nil
  from assms have k: "0 < k" by simp
  show ?case
  proof (cases "cg = []")
    case True
    with k show ?thesis by simp
  next
    case False
    then have "0 < length cg" by simp
    from div_one_chunk[OF this Nil.prems] have "(length cg + k - 1) div k = 1" .
    with False show ?thesis by simp
  qed
next
  case (Cons w rest)
  from assms have k: "0 < k" by simp
  have iff: "int (length (cg @ [w])) \<ge> wpg \<longleftrightarrow> length cg + 1 \<ge> k"
    using assms by (auto simp: max_def split: if_splits)
  show ?case
  proof (cases "length cg + 1 \<ge> k")
    case True
    with Cons.prems have eq: "length cg + 1 = k" by simp
    have "length (group_loop wpg (w # rest) cg groups) =
          length (group_loop wpg rest [] (groups @ [make_group (cg @ [w])]))"
      using True iff by simp
    also have "\<dots> = length groups + 1 + (length rest + k - 1) div k"
      using Cons.IH[of "[]" "groups @ [make_group (cg @ [w])]"] k by simp
    also have "\<dots> = length groups + (k + length rest + k - 1) div k"
      using div_step[OF k, of "length rest"] by simp
    also have "k + length rest + k - 1 = length cg + length (w # rest) + k - 1"
      using eq by simp
    finally show ?thesis .
  next
    case False
    then have lt: "length (cg @ [w]) < k" by simp
    have "length (group_loop wpg (w # rest) cg groups) =
          length (group_loop wpg rest (cg @ [w]) groups)"
      using False iff by simp
    also have "\<dots> = length groups + (length (cg @ [w]) + length rest + k - 1) div k"
      using Cons.IH[OF lt] .
    finally show ?thesis by simp
  qed
qed

text \<open>
  Claim C8 states that every emitted group ends strictly after it starts. The function
  stretches each group to a minimum duration, for legibility as its comment says, and its
  sweep then raises a start without looking at the end. Five words of 0.02 s each, grouped by four: the first group is stretched to end at 0.6, the
  second, stretched to end at 0.23, has its start raised to 0.6 and is returned as it is,
  ending before it starts. The consumer enables the text of a group for the times between
  its start and its end, so the word \<open>e\<close> is never displayed.
\<close>

theorem group_words_negative_duration_counterexample:
  "group_words_for_display
     [(0, 2 / 100, ascii ''a''), (2 / 100, 4 / 100, ascii ''b''), (4 / 100, 6 / 100, ascii ''c''),
      (6 / 100, 8 / 100, ascii ''d''), (8 / 100, 10 / 100, ascii ''e'')] WORDS_PER_GROUP =
   [(0, 3 / 5, ascii ''a b c d''), (3 / 5, 23 / 100, ascii ''e'')] \<and>
   g_end (3 / 5, 23 / 100, ascii ''e'') < g_start (3 / 5, 23 / 100, ascii ''e'')"
  by (simp add: group_defs WORDS_PER_GROUP_def upt_conv_Cons)

text \<open>
  No chunk of words is dropped: \<open>n\<close> words in chunks of \<open>max 1 words_per_group\<close> give the
  rounded-up quotient of groups. A group can end at or before its start only where the
  sweep has raised its start to the end of the previous group.
\<close>

lemma group_words_all_emitted:
  "length (group_words_for_display ws wpg) =
     (length ws + nat (max 1 wpg) - 1) div nat (max 1 wpg) \<and>
   (\<forall>i < length (group_words_for_display ws wpg).
      g_start (group_words_for_display ws wpg ! i) < g_end (group_words_for_display ws wpg ! i) \<or>
      (0 < i \<and> g_start (group_words_for_display ws wpg ! i) =
                g_end (group_words_for_display ws wpg ! (i - 1))))"
proof (cases "ws = []")
  case True
  then show ?thesis by (simp add: group_words_for_display_def)
next
  case False
  let ?pre = "group_loop wpg ws [] []"
  let ?k = "nat (max 1 wpg)"
  have out: "group_words_for_display ws wpg = resolve_overlaps ?pre"
    using False by (simp add: group_words_for_display_def)
  have len: "length ?pre = (length ws + ?k - 1) div ?k"
    using group_loop_length[OF refl, of "[]" wpg ws "[]"] by simp
  have pos: "\<forall>g \<in> set ?pre. g_start g < g_end g"
    by (rule group_loop_positive) simp
  have "g_start (resolve_overlaps ?pre ! i) < g_end (resolve_overlaps ?pre ! i) \<or>
        (0 < i \<and> g_start (resolve_overlaps ?pre ! i) = g_end (resolve_overlaps ?pre ! (i - 1)))"
    if i: "i < length ?pre" for i
  proof (cases "0 < i")
    case False
    with i pos show ?thesis by (simp add: resolve_overlaps_nth)
  next
    case True
    from i have p: "g_start (?pre ! i) < g_end (?pre ! i)" using pos by simp
    from i have i1: "i - 1 < length ?pre" by simp
    have e: "g_end (resolve_overlaps ?pre ! i) = g_end (?pre ! i)"
      using i by (simp add: resolve_overlaps_nth g_end_swept)
    have e1: "g_end (resolve_overlaps ?pre ! (i - 1)) = g_end (?pre ! (i - 1))"
      using i1 by (simp add: resolve_overlaps_nth g_end_swept)
    have s: "g_start (resolve_overlaps ?pre ! i) = max (g_start (?pre ! i)) (g_end (?pre ! (i - 1)))"
      using i True by (simp add: resolve_overlaps_nth swept_def g_start_def)
    show ?thesis
    proof (cases "g_start (?pre ! i) < g_end (?pre ! (i - 1))")
      case True
      with s e1 \<open>0 < i\<close> show ?thesis by (simp add: max_def)
    next
      case False
      with s e p show ?thesis by (simp add: max_def)
    qed
  qed
  with len show ?thesis unfolding out by (simp add: resolve_overlaps_length)
qed

theorem group_words_no_overlap_witness:
  "group_words_for_display
     [(0, 2 / 100, ascii ''a''), (2 / 100, 4 / 100, ascii ''b''), (4 / 100, 6 / 100, ascii ''c''),
      (6 / 100, 8 / 100, ascii ''d''), (8 / 100, 10 / 100, ascii ''e'')] 4 =
     [(0, 3 / 5, ascii ''a b c d''), (3 / 5, 23 / 100, ascii ''e'')] \<and>
   g_end ([(0, 3 / 5, ascii ''a b c d''), (3 / 5, 23 / 100, ascii ''e'')] ! (1 - 1)) \<le>
     g_start ([(0, 3 / 5, ascii ''a b c d''), (3 / 5, 23 / 100, ascii ''e'')] ! 1) \<and>
   g_start (resolve_overlaps [(0, 3 / 5, ascii ''a b c d''), (8 / 100, 23 / 100, ascii ''e'')] ! 1) = 3 / 5 \<and>
   g_end (resolve_overlaps [(0, 3 / 5, ascii ''a b c d''), (8 / 100, 23 / 100, ascii ''e'')] ! 1) = 23 / 100 \<and>
   resolve_step 1 [(0, 3 / 5, ascii ''a b c d''), (8 / 100, 23 / 100, ascii ''e'')] ! 0 =
     (0, 3 / 5, ascii ''a b c d'')"
proof -
  let ?ws = "[(0, 2 / 100, ascii ''a''), (2 / 100, 4 / 100, ascii ''b''), (4 / 100, 6 / 100, ascii ''c''),
      (6 / 100, 8 / 100, ascii ''d''), (8 / 100, 10 / 100, ascii ''e'')] :: word_timestamp list"
  let ?pre = "[(0, 3 / 5, ascii ''a b c d''), (8 / 100, 23 / 100, ascii ''e'')] :: display_group list"
  have e: "group_words_for_display ?ws 4 =
     [(0, 3 / 5, ascii ''a b c d''), (3 / 5, 23 / 100, ascii ''e'')]"
    by (simp add: group_defs upt_conv_Cons)
  note t = group_words_no_overlap[of ?ws 4 ?pre]
  have i: "0 < (1::nat) \<and> 1 < length (group_words_for_display ?ws 4)"
    unfolding e by simp
  from t i have a: "g_end (group_words_for_display ?ws 4 ! (1 - 1)) \<le>
     g_start (group_words_for_display ?ws 4 ! 1)" by blast
  have l: "(1::nat) < length ?pre" by simp
  from t l have b: "g_start (resolve_overlaps ?pre ! 1) =
      (if (0::nat) < 1 then max (g_start (?pre ! 1)) (g_end (?pre ! (1 - 1))) else g_start (?pre ! 1))"
    and c: "g_end (resolve_overlaps ?pre ! 1) = g_end (?pre ! 1)" by blast+
  from t have d: "resolve_step 1 ?pre ! 0 = ?pre ! 0" by simp
  from a b c d show ?thesis unfolding e
    by (simp add: g_start_def g_end_def)
qed

lemma group_words_all_emitted_example:
  "length (group_words_for_display
     [(0, 2 / 100, ascii ''a''), (2 / 100, 4 / 100, ascii ''b''), (4 / 100, 6 / 100, ascii ''c''),
      (6 / 100, 8 / 100, ascii ''d''), (8 / 100, 10 / 100, ascii ''e'')] 4) = 2 \<and>
   (5 + nat (max 1 4) - 1) div nat (max 1 4) = (2 :: nat) \<and>
   g_start (group_words_for_display
     [(0, 2 / 100, ascii ''a''), (2 / 100, 4 / 100, ascii ''b''), (4 / 100, 6 / 100, ascii ''c''),
      (6 / 100, 8 / 100, ascii ''d''), (8 / 100, 10 / 100, ascii ''e'')] 4 ! 0) <
   g_end (group_words_for_display
     [(0, 2 / 100, ascii ''a''), (2 / 100, 4 / 100, ascii ''b''), (4 / 100, 6 / 100, ascii ''c''),
      (6 / 100, 8 / 100, ascii ''d''), (8 / 100, 10 / 100, ascii ''e'')] 4 ! 0)"
proof -
  let ?ws = "[(0, 2 / 100, ascii ''a''), (2 / 100, 4 / 100, ascii ''b''), (4 / 100, 6 / 100, ascii ''c''),
      (6 / 100, 8 / 100, ascii ''d''), (8 / 100, 10 / 100, ascii ''e'')] :: word_timestamp list"
  note t = group_words_all_emitted[of ?ws 4]
  from t have l: "length (group_words_for_display ?ws 4) = 2" by simp
  then have "(0::nat) < length (group_words_for_display ?ws 4)" by simp
  with t have "g_start (group_words_for_display ?ws 4 ! 0) < g_end (group_words_for_display ?ws 4 ! 0)"
    by blast
  with l show ?thesis by simp
qed

section \<open>Properties of the scans and of the batch\<close>

lemma scan_windows_skip:
  assumes "embed w = Inl e"
  shows "scan_windows i (before @ [w] @ after) sims dets =
         scan_windows (i + int (length before) + 1) after
           (fst (scan_windows i before sims dets)) (snd (scan_windows i before sims dets))"
  using assms
proof (induction before arbitrary: i sims dets)
  case Nil
  then show ?case by simp
next
  case (Cons b before)
  have "i + 1 + int (length before) + 1 = i + int (length (b # before)) + 1" by simp
  with Cons.IH[OF Cons.prems] show ?case
    by (simp split: sum.splits)
qed

text \<open>
  The scores come out of the scan in ascending order of window index, and the detections
  are the indices of those that reach the threshold: the detector's result is the
  consolidation of the scores.
\<close>

lemma scan_windows_scores:
  "\<exists>new. fst (scan_windows i ws sims dets) = sims @ new \<and>
         snd (scan_windows i ws sims dets) = dets @ detections_of new \<and>
         sorted_wrt (<) (map fst new) \<and> (\<forall>p \<in> set new. i \<le> fst p)"
proof (induction ws arbitrary: i sims dets)
  case Nil
  have "fst (scan_windows i [] sims dets) = sims @ [] \<and>
        snd (scan_windows i [] sims dets) = dets @ detections_of [] \<and>
        sorted_wrt (<) (map fst ([] :: (int \<times> real) list)) \<and>
        (\<forall>p \<in> set ([] :: (int \<times> real) list). i \<le> fst p)"
    by (simp add: detections_of_def)
  then show ?case by blast
next
  case (Cons w rest)
  show ?case
  proof (cases "peak w < SILENCE_PEAK \<or> isl (embed w)")
    case True
    then have e: "scan_windows i (w # rest) sims dets = scan_windows (i + 1) rest sims dets"
      by (auto split: sum.splits)
    from Cons.IH[of "i + 1" sims dets] obtain new where
      n: "fst (scan_windows (i + 1) rest sims dets) = sims @ new"
         "snd (scan_windows (i + 1) rest sims dets) = dets @ detections_of new"
         "sorted_wrt (<) (map fst new)" "\<forall>p \<in> set new. i + 1 \<le> fst p" by blast
    from n(4) have "\<forall>p \<in> set new. i \<le> fst p" by fastforce
    with n(1-3) show ?thesis unfolding e by blast
  next
    case False
    then obtain similarity where s: "embed w = Inr similarity" and p: "\<not> peak w < SILENCE_PEAK"
      by (cases "embed w") auto
    let ?dets = "if similarity \<ge> SIMILARITY_THRESHOLD then dets @ [i] else dets"
    have e: "scan_windows i (w # rest) sims dets =
             scan_windows (i + 1) rest (sims @ [(i, similarity)]) ?dets"
      using s p by simp
    from Cons.IH[of "i + 1" "sims @ [(i, similarity)]" ?dets] obtain new where
      n: "fst (scan_windows (i + 1) rest (sims @ [(i, similarity)]) ?dets) =
            (sims @ [(i, similarity)]) @ new"
         "snd (scan_windows (i + 1) rest (sims @ [(i, similarity)]) ?dets) =
            ?dets @ detections_of new"
         "sorted_wrt (<) (map fst new)" "\<forall>p \<in> set new. i + 1 \<le> fst p" by blast
    let ?new = "(i, similarity) # new"
    have 1: "fst (scan_windows i (w # rest) sims dets) = sims @ ?new"
      unfolding e n(1) by simp
    have 2: "snd (scan_windows i (w # rest) sims dets) = dets @ detections_of ?new"
      unfolding e n(2) by (simp add: detections_of_def)
    have 3: "sorted_wrt (<) (map fst ?new)" using n(3,4) by fastforce
    have 4: "\<forall>p \<in> set ?new. i \<le> fst p" using n(4) by fastforce
    from 1 2 3 4 show ?thesis by blast
  qed
qed

lemma detect_theodore_segments_scores:
  "detect_theodore_segments ws = consolidate_scores (fst (scan_windows 0 ws [] [])) \<and>
   sorted_wrt (<) (map fst (fst (scan_windows 0 ws [] [])))"
proof -
  from scan_windows_scores[of 0 ws "[]" "[]"] obtain new where
    "fst (scan_windows 0 ws [] []) = new" "snd (scan_windows 0 ws [] []) = detections_of new"
    "sorted_wrt (<) (map fst new)" by auto
  then show ?thesis by (simp add: detect_theodore_segments_def consolidate_scores_def)
qed


lemma batch_scan_failure:
  assumes "b_embed w = Inl e" and "sr \<le> n_samples w"
    and "\<forall>w \<in> set before. \<not> isl (b_embed w)"
  shows "batch_scan sr i (before @ [w] @ after) ms = Inl e"
  using assms(3)
proof (induction before arbitrary: i ms)
  case Nil
  from assms(1,2) show ?case by simp
next
  case (Cons b before)
  from Cons.prems obtain sim where b: "b_embed b = Inr sim" by (cases "b_embed b") auto
  from Cons.prems have "\<forall>w \<in> set before. \<not> isl (b_embed w)" by simp
  from Cons.IH[OF this] b show ?case by simp
qed















text \<open>
  Claim C6 states that a window whose oracle raises is skipped and the scan goes on. The
  detector does so (\<open>scan_windows_skip\<close>): for three windows of which the second raises it
  returns the segments of the first and the third. The batch worker on the same three
  windows stops at the second (\<open>batch_scan_failure\<close>): its result is the error, without
  segments.
\<close>

theorem batch_worker_aborts_on_window_failure:
  "detect_theodore_segments
     [\<lparr>peak = 1 / 2, embed = Inr (97 / 100)\<rparr>,
      \<lparr>peak = 1 / 2, embed = Inl (Exception (ascii ''oracle failure''))\<rparr>,
      \<lparr>peak = 1 / 2, embed = Inr (98 / 100)\<rparr>] = [(0, 3), (6, 9)] \<and>
   analyze_single_video True
     \<lparr>video_name = ascii ''v.mp4'',
      prepared = Inr (9, 16000,
        [\<lparr>n_samples = 48000, b_embed = Inr (97 / 100)\<rparr>,
         \<lparr>n_samples = 48000, b_embed = Inl (Exception (ascii ''oracle failure''))\<rparr>,
         \<lparr>n_samples = 48000, b_embed = Inr (98 / 100)\<rparr>]),
      cleanup = None\<rparr> =
     \<lparr>r_video = ascii ''v.mp4'', r_status = StatusError, r_segments = [],
      r_total_duration = 9, r_theodore_duration = 0, r_error = Some (ascii ''oracle failure'')\<rparr>"
  by (simp add: detect_theodore_segments_def SILENCE_PEAK_def SIMILARITY_THRESHOLD_def
      close_run_def MIN_CONSECUTIVE_SEGMENTS_def SEGMENT_DURATION_SEC_def
      analyze_single_video_def batch_SIMILARITY_THRESHOLD_def new_match_def
      batch_SEGMENT_DURATION_SEC_def Let_def)

section \<open>Properties of the timestamp file\<close>

lemma digit_string_digits: "digit_string (digits n)"
proof (induction n rule: digits.induct)
  case (1 n)
  show ?case
  proof (cases "n < 10")
    case True
    then show ?thesis by (subst digits.simps) (simp add: digit_string_def)
  next
    case False
    have "n mod 10 < 10" by simp
    then have "48 + n mod 10 \<le> 57" by linarith
    with "1.IH"[OF False] False show ?thesis
      by (subst digits.simps) (auto simp: digit_string_def)
  qed
qed

lemma dec_value_append: "dec_value (s @ t) acc = dec_value t (dec_value s acc)"
  by (simp add: dec_value_def)

lemma dec_value_digits: "dec_value (digits n) acc = acc * 10 ^ length (digits n) + n"
proof (induction n arbitrary: acc rule: digits.induct)
  case (1 n)
  show ?case
  proof (cases "n < 10")
    case True
    then have "digits n = [48 + n]" by (subst digits.simps) simp
    then show ?thesis by (simp add: dec_value_def)
  next
    case False
    then have d: "digits n = digits (n div 10) @ [48 + n mod 10]" by (subst digits.simps) simp
    have "dec_value (digits n) acc = 10 * dec_value (digits (n div 10)) acc + n mod 10"
      unfolding d by (simp add: dec_value_def)
    also have "\<dots> = 10 * (acc * 10 ^ length (digits (n div 10)) + n div 10) + n mod 10"
      using "1.IH"[OF False] by simp
    also have "\<dots> = acc * 10 ^ length (digits n) + n"
      unfolding d by (simp add: algebra_simps)
    finally show ?thesis .
  qed
qed

lemma dec_value_zeros: "dec_value (replicate k 48 @ s) 0 = dec_value s 0"
proof -
  have "dec_value (replicate k 48) 0 = 0" by (induction k) (simp_all add: dec_value_def)
  then show ?thesis by (simp add: dec_value_append)
qed

lemma digits_value_digit_string:
  "\<forall>c \<in> set s. 48 \<le> c \<and> c \<le> 57 \<Longrightarrow> s \<noteq> [] \<or> prev \<Longrightarrow>
   digits_value U prev acc s = Some (dec_value s acc)"
proof (induction s arbitrary: prev acc)
  case Nil
  then show ?case by (simp add: dec_value_def)
next
  case (Cons c s)
  from Cons.prems(1) have c: "48 \<le> c" "c \<le> 57" and s: "\<forall>c \<in> set s. 48 \<le> c \<and> c \<le> 57"
    by simp_all
  from c have "c \<noteq> 95" and "digit_of U c = Some (c - 48)" by (simp_all add: digit_of_def)
  with Cons.IH[OF s, of True "10 * acc + (c - 48)"] show ?case
    by (simp add: dec_value_def)
qed

lemma dropWhile_id: "s = [] \<or> \<not> P (hd s) \<Longrightarrow> dropWhile P s = s"
  by (cases s) auto

lemma digit_not_space: "48 \<le> c \<Longrightarrow> c \<le> 57 \<Longrightarrow> \<not> int_isspace c \<and> \<not> py_isspace c"
  by (simp add: int_isspace_def py_isspace_def)

lemma py_int_digit_string:
  assumes "digit_string s"
  shows "py_int U s = Inr (int (dec_value s 0))"
proof -
  from assms have ne: "s \<noteq> []" and all: "\<forall>c \<in> set s. 48 \<le> c \<and> c \<le> 57"
    by (simp_all add: digit_string_def)
  from ne all have h: "48 \<le> hd s" "hd s \<le> 57" by (cases s; simp)+
  from ne all have l: "48 \<le> last s" "last s \<le> 57" by (simp_all add: last_in_set)
  have d1: "dropWhile int_isspace s = s"
    using digit_not_space[OF h] by (simp add: dropWhile_id)
  have "dropWhile int_isspace (rev s) = rev s"
    using digit_not_space[OF l] ne by (simp add: dropWhile_id hd_rev)
  then have d2: "rev (dropWhile int_isspace (rev s)) = s" by simp
  from h have sign: "hd s \<noteq> 45" "hd s \<noteq> 43" by simp_all
  from digits_value_digit_string[OF all, of False U 0] ne
  have v: "digits_value U False 0 s = Some (dec_value s 0)" by simp
  show ?thesis
    by (simp add: py_int_def Let_def d1 sign d2 v)
qed

lemma format_02d_nonneg:
  assumes "0 \<le> i"
  shows "digit_string (format_02d i)" and "py_int U (format_02d i) = Inr i"
proof -
  from assms have f: "format_02d i = replicate (2 - length (digits (nat i))) 48 @ digits (nat i)"
    by (simp add: format_02d_def zfill_def)
  from digit_string_digits[of "nat i"] show ds: "digit_string (format_02d i)"
    unfolding f by (auto simp: digit_string_def)
  have "dec_value (format_02d i) 0 = nat i"
    unfolding f by (simp add: dec_value_zeros dec_value_digits)
  with py_int_digit_string[OF ds, of U] assms show "py_int U (format_02d i) = Inr i" by simp
qed

lemma py_split_none: "sep \<notin> set a \<Longrightarrow> py_split sep a = [a]"
  by (induction a) auto

lemma py_split_first: "sep \<notin> set a \<Longrightarrow> py_split sep (a @ sep # b) = a # py_split sep b"
  by (induction a) auto

lemma py_strip_id:
  assumes "s \<noteq> []" and "\<not> py_isspace (hd s)" and "\<not> py_isspace (last s)"
  shows "py_strip s = s"
proof -
  have "dropWhile py_isspace s = s" using assms(2) by (simp add: dropWhile_id)
  moreover have "dropWhile py_isspace (rev s) = rev s"
    using assms(1,3) by (simp add: dropWhile_id hd_rev)
  ultimately show ?thesis by (simp add: py_strip_def)
qed

lemma py_strip_spaces:
  assumes "s \<noteq> []" and "\<not> py_isspace (hd s)" and "\<not> py_isspace (last s)"
  shows "py_strip (32 # s) = s" and "py_strip (32 # s @ [32]) = s"
proof -
  have sp: "py_isspace 32" by (simp add: py_isspace_def)
  have d: "dropWhile py_isspace s = s" using assms(2) by (simp add: dropWhile_id)
  have r: "dropWhile py_isspace (rev s) = rev s"
    using assms(1,3) by (simp add: dropWhile_id hd_rev)
  show "py_strip (32 # s) = s" by (simp add: py_strip_def sp d r)
  have "dropWhile py_isspace (s @ [32]) = s @ [32]"
    using assms(1,2) by (cases s) auto
  then show "py_strip (32 # s @ [32]) = s" by (simp add: py_strip_def sp r)
qed

lemma hms_arith:
  fixes n :: int
  shows "(n div 3600) * 3600 + ((n mod 3600) div 60) * 60 + n mod 60 = n"
proof -
  have "(n mod 3600) mod 60 = n mod 60" by (simp add: mod_mod_cancel)
  then have "((n mod 3600) div 60) * 60 + n mod 60 = n mod 3600"
    using div_mult_mod_eq[of "n mod 3600" 60] by simp
  moreover have "(n div 3600) * 3600 + n mod 3600 = n" by (rule div_mult_mod_eq)
  ultimately show ?thesis by linarith
qed

lemma format_time_parts:
  assumes "0 \<le> seconds"
  shows "\<exists>h m s. 0 \<le> h \<and> 0 \<le> m \<and> 0 \<le> s \<and>
           format_time seconds = format_02d h @ [58] @ format_02d m @ [58] @ format_02d s \<and>
           h * 3600 + m * 60 + s = \<lfloor>seconds\<rfloor>"
proof -
  let ?n = "\<lfloor>seconds\<rfloor>"
  have n0: "0 \<le> ?n" using assms by simp
  have fd: "\<lfloor>x / real_of_int b\<rfloor> = \<lfloor>x\<rfloor> div b" if "0 < b" for x :: real and b :: int
    using that by (simp add: floor_divide_real_eq_div)
  have h: "\<lfloor>seconds / 3600\<rfloor> = ?n div 3600" using fd[of 3600 seconds] by simp
  have m60: "\<lfloor>seconds / 60\<rfloor> = ?n div 60" using fd[of 60 seconds] by simp
  have "\<lfloor>(seconds - 3600 * of_int (?n div 3600)) / 60\<rfloor> =
        \<lfloor>seconds - 3600 * of_int (?n div 3600)\<rfloor> div 60"
    using fd[of 60 "seconds - 3600 * of_int (?n div 3600)"] by simp
  also have "\<lfloor>seconds - 3600 * of_int (?n div 3600)\<rfloor> = ?n - 3600 * (?n div 3600)"
  proof -
    have "seconds - 3600 * of_int (?n div 3600) = seconds - of_int (3600 * (?n div 3600))" by simp
    then show ?thesis by (simp only: floor_diff_of_int)
  qed
  also have "\<dots> = ?n mod 3600" by (simp add: minus_mult_div_eq_mod)
  finally have m: "\<lfloor>(seconds - 3600 * of_int (?n div 3600)) / 60\<rfloor> = (?n mod 3600) div 60" .
  have s: "\<lfloor>seconds - 60 * of_int (?n div 60)\<rfloor> = ?n mod 60"
  proof -
    have "seconds - 60 * of_int (?n div 60) = seconds - of_int (60 * (?n div 60))" by simp
    then have "\<lfloor>seconds - 60 * of_int (?n div 60)\<rfloor> = ?n - 60 * (?n div 60)"
      by (simp only: floor_diff_of_int)
    then show ?thesis by (simp add: minus_mult_div_eq_mod)
  qed
  let ?h = "?n div 3600" and ?m = "(?n mod 3600) div 60" and ?s = "?n mod 60"
  have pos: "0 \<le> ?h" "0 \<le> ?m" "0 \<le> ?s" using n0 by (simp_all add: pos_imp_zdiv_nonneg_iff)
  have i1: "py_int_of_float (py_floordiv seconds 3600) = ?h"
    using pos(1) by (simp add: py_int_of_float_def py_floordiv_def h)
  have mm: "py_mod seconds 3600 = seconds - 3600 * of_int ?h" by (simp add: py_mod_def h)
  have i2: "py_int_of_float (py_floordiv (py_mod seconds 3600) 60) = ?m"
    using pos(2) unfolding mm by (simp add: py_int_of_float_def py_floordiv_def m)
  have ms: "py_mod seconds 60 = seconds - 60 * of_int (?n div 60)" by (simp add: py_mod_def m60)
  have ge: "0 \<le> seconds - 60 * of_int (?n div 60)"
  proof -
    have "0 \<le> \<lfloor>seconds - 60 * of_int (?n div 60)\<rfloor>" using s pos(3) by simp
    then show ?thesis by (simp only: zero_le_floor)
  qed
  have i3: "py_int_of_float (py_mod seconds 60) = ?s"
    unfolding ms using ge s by (simp add: py_int_of_float_def)
  have f: "format_time seconds = format_02d ?h @ [58] @ format_02d ?m @ [58] @ format_02d ?s"
    by (simp add: format_time_def Let_def i1 i2 i3)
  from pos f hms_arith[of ?n] show ?thesis by blast
qed

lemma digit_string_ends:
  assumes "digit_string s"
  shows "48 \<le> hd s" "hd s \<le> 57" "48 \<le> last s" "last s \<le> 57"
proof -
  from assms have ne: "s \<noteq> []" and all: "\<forall>c \<in> set s. 48 \<le> c \<and> c \<le> 57"
    by (simp_all add: digit_string_def)
  from ne all show "48 \<le> hd s" "hd s \<le> 57" by (cases s; simp)+
  from ne all show "48 \<le> last s" "last s \<le> 57" by (simp_all add: last_in_set)
qed

lemma time_string_hms:
  assumes "digit_string H" and "digit_string M" and "digit_string S"
  shows "time_string (H @ [58] @ M @ [58] @ S)"
proof -
  from assms have ne: "H \<noteq> []" "S \<noteq> []" by (simp_all add: digit_string_def)
  from assms have "\<forall>c \<in> set (H @ [58] @ M @ [58] @ S). 48 \<le> c \<and> c \<le> 58"
    by (auto simp: digit_string_def)
  moreover have "hd (H @ [58] @ M @ [58] @ S) = hd H" using ne by simp
  moreover have "last (H @ [58] @ M @ [58] @ S) = last S" using ne by simp
  ultimately show ?thesis
    using digit_string_ends[OF assms(1)] digit_string_ends[OF assms(3)] ne
    unfolding time_string_def by simp
qed

lemma hms_seconds_time:
  assumes "0 \<le> h" and "0 \<le> m" and "0 \<le> s"
  shows "hms_seconds U (py_split 58 (format_02d h @ [58] @ format_02d m @ [58] @ format_02d s)) =
         Inr (h * 3600 + m * 60 + s)"
proof -
  let ?H = "format_02d h" and ?M = "format_02d m" and ?S = "format_02d s"
  note dh = format_02d_nonneg[OF assms(1)] and dm = format_02d_nonneg[OF assms(2)]
    and ds = format_02d_nonneg[OF assms(3)]
  have no: "58 \<notin> set ?H" "58 \<notin> set ?M" "58 \<notin> set ?S"
    using dh(1) dm(1) ds(1) by (auto simp: digit_string_def)
  have "py_split 58 (?H @ [58] @ ?M @ [58] @ ?S) = ?H # py_split 58 (?M @ 58 # ?S)"
    using py_split_first[OF no(1), of "?M @ 58 # ?S"] by simp
  also have "py_split 58 (?M @ 58 # ?S) = ?M # py_split 58 ?S"
    by (rule py_split_first[OF no(2)])
  also have "py_split 58 ?S = [?S]" by (rule py_split_none[OF no(3)])
  finally have sp: "py_split 58 (?H @ [58] @ ?M @ [58] @ ?S) = [?H, ?M, ?S]" .
  show ?thesis unfolding sp
    by (simp add: hms_seconds_def py_index_def bind_err_def dh(2) dm(2) ds(2))
qed

lemma format_time_nonneg:
  assumes "0 \<le> seconds"
  shows "time_string (format_time seconds)"
    and "hms_seconds U (py_split 58 (format_time seconds)) = Inr \<lfloor>seconds\<rfloor>"
proof -
  from format_time_parts[OF assms] obtain h m s where
    pos: "0 \<le> h" "0 \<le> m" "0 \<le> s"
    and f: "format_time seconds = format_02d h @ [58] @ format_02d m @ [58] @ format_02d s"
    and v: "h * 3600 + m * 60 + s = \<lfloor>seconds\<rfloor>" by blast
  show "time_string (format_time seconds)"
    unfolding f
    by (rule time_string_hms) (simp_all add: format_02d_nonneg pos)
  show "hms_seconds U (py_split 58 (format_time seconds)) = Inr \<lfloor>seconds\<rfloor>"
    unfolding f using hms_seconds_time[OF pos, of U] v by simp
qed

lemma time_string_chars:
  assumes "time_string t"
  shows "ARROW \<notin> set t" "46 \<notin> set t" "LF \<notin> set t" "CR \<notin> set t" "32 \<notin> set t"
    and "\<not> py_isspace (hd t)" "\<not> py_isspace (last t)" "t \<noteq> []"
  using assms digit_not_space[of "hd t"] digit_not_space[of "last t"]
  by (auto simp: time_string_def ARROW_def LF_def CR_def)

lemma digit_string_chars:
  assumes "digit_string s"
  shows "ARROW \<notin> set s" "46 \<notin> set s" "LF \<notin> set s" "CR \<notin> set s" "32 \<notin> set s"
  using assms by (auto simp: digit_string_def ARROW_def LF_def CR_def)

lemma parse_line_segment:
  assumes "digit_string I" and "time_string T1" and "time_string T2"
  shows "parse_line U (I @ [46, 32] @ T1 @ [32, ARROW, 32] @ T2) =
           (case bind_err (hms_seconds U (py_split 58 T1)) (\<lambda>start_sec.
                 bind_err (hms_seconds U (py_split 58 T2)) (\<lambda>end_sec.
                 Inr (start_sec, end_sec))) of
              Inl e \<Rightarrow> None
            | Inr seg \<Rightarrow> Some seg)"
proof -
  let ?raw = "I @ [46, 32] @ T1 @ [32, ARROW, 32] @ T2"
  let ?p0 = "I @ [46, 32] @ T1 @ [32]" and ?p1 = "32 # T2"
  note c1 = time_string_chars[OF assms(2)] and c2 = time_string_chars[OF assms(3)]
    and ci = digit_string_chars[OF assms(1)] and ei = digit_string_ends[OF assms(1)]
  from assms(1) have ine: "I \<noteq> []" by (simp add: digit_string_def)
  have hd_raw: "hd ?raw = hd I" using ine by simp
  have last_raw: "last ?raw = last T2" using c2(8) by simp
  have strip: "py_strip ?raw = ?raw"
  proof (rule py_strip_id)
    show "?raw \<noteq> []" using ine by simp
    show "\<not> py_isspace (hd ?raw)" unfolding hd_raw using digit_not_space[OF ei(1,2)] by simp
    show "\<not> py_isspace (last ?raw)" unfolding last_raw using c2(7) .
  qed
  have arrow: "ARROW \<in> set ?raw" by simp
  have dig: "(case ?raw of [] \<Rightarrow> False | c # cs \<Rightarrow> py_isdigit U c)"
    using ine ei(1,2) by (cases I) (simp_all add: py_isdigit_def)
  have n0: "ARROW \<notin> set ?p0" using ci(1) c1(1) by (simp add: ARROW_def)
  have n1: "ARROW \<notin> set ?p1" using c2(1) by (simp add: ARROW_def)
  have "?raw = ?p0 @ ARROW # ?p1" by simp
  then have "py_split ARROW ?raw = ?p0 # py_split ARROW ?p1"
    using py_split_first[OF n0, of ?p1] by simp
  also have "py_split ARROW ?p1 = [?p1]" by (rule py_split_none[OF n1])
  finally have parts: "py_split ARROW ?raw = [?p0, ?p1]" .
  have nd: "46 \<notin> set (32 # T1 @ [32])" using c1(2) by simp
  have "?p0 = I @ 46 # (32 # T1 @ [32])" by simp
  then have "py_split 46 ?p0 = I # py_split 46 (32 # T1 @ [32])"
    using py_split_first[OF ci(2), of "32 # T1 @ [32]"] by simp
  also have "py_split 46 (32 # T1 @ [32]) = [32 # T1 @ [32]]" by (rule py_split_none[OF nd])
  finally have dots: "py_split 46 ?p0 = [I, 32 # T1 @ [32]]" .
  have s1: "py_strip (last (py_split 46 ?p0)) = T1"
    unfolding dots using py_strip_spaces(2)[OF c1(8) c1(6) c1(7)] by simp
  have s2: "py_strip ?p1 = T2" using py_strip_spaces(1)[OF c2(8) c2(6) c2(7)] .
  have p0: "[?p0, ?p1] ! 0 = ?p0" and p1: "[?p0, ?p1] ! 1 = ?p1" by simp_all
  show ?thesis
    unfolding parse_line_def Let_def strip parts p0 p1 s1 s2
    using arrow dig by simp
qed

lemma parse_line_no_arrow: "ARROW \<notin> set raw \<Longrightarrow> parse_line U raw = None"
proof -
  assume a: "ARROW \<notin> set raw"
  have "x \<in> set raw" if "x \<in> set (py_strip raw)" for x
  proof -
    from that have "x \<in> set (dropWhile py_isspace (rev (dropWhile py_isspace raw)))"
      by (simp add: py_strip_def)
    then have "x \<in> set (rev (dropWhile py_isspace raw))" by (rule set_dropWhileD)
    then have "x \<in> set (dropWhile py_isspace raw)" by simp
    then show ?thesis by (rule set_dropWhileD)
  qed
  with a have "ARROW \<notin> set (py_strip raw)" by blast
  then show ?thesis by (simp add: parse_line_def Let_def)
qed

lemma file_lines_line:
  "LF \<notin> set l \<Longrightarrow> CR \<notin> set l \<Longrightarrow> file_lines (l @ LF # rest) = l # file_lines rest"
  by (induction l) auto

lemma read_lines_append:
  "read_lines U ls segments = segments @ read_lines U ls []"
proof (induction ls arbitrary: segments)
  case Nil
  show ?case by simp
next
  case (Cons raw rest)
  show ?case
  proof (cases "parse_line U raw")
    case None
    with Cons.IH[of segments] show ?thesis by simp
  next
    case (Some seg)
    with Cons.IH[of "segments @ [seg]"] Cons.IH[of "[seg]"] show ?thesis by simp
  qed
qed

lemma digit_string_str_int: "0 \<le> i \<Longrightarrow> digit_string (py_str_int i)"
  by (simp add: py_str_int_def digit_string_digits)

lemma read_write_lines:
  assumes "\<forall>seg \<in> set segs. 0 \<le> fst seg \<and> 0 \<le> snd seg" and "0 \<le> i"
  shows "read_lines U (file_lines (write_lines i segs)) [] =
         map (\<lambda>seg. (\<lfloor>fst seg\<rfloor>, \<lfloor>snd seg\<rfloor>)) segs"
  using assms
proof (induction segs arbitrary: i)
  case Nil
  show ?case by simp
next
  case (Cons seg rest)
  let ?I = "py_str_int i" and ?T1 = "format_time (fst seg)" and ?T2 = "format_time (snd seg)"
  let ?L = "?I @ [46, 32] @ ?T1 @ [32, ARROW, 32] @ ?T2"
  from Cons.prems have nn: "0 \<le> fst seg" "0 \<le> snd seg" by simp_all
  have di: "digit_string ?I" using Cons.prems(2) by (rule digit_string_str_int)
  note t1 = format_time_nonneg[OF nn(1)] and t2 = format_time_nonneg[OF nn(2)]
  have w: "write_lines i (seg # rest) = ?L @ LF # write_lines (i + 1) rest"
    by (simp add: ascii_def)
  have nl: "LF \<notin> set ?L" "CR \<notin> set ?L"
    using digit_string_chars[OF di] time_string_chars[OF t1(1)] time_string_chars[OF t2(1)]
    by (simp_all add: LF_def CR_def ARROW_def)
  have fl: "file_lines (write_lines i (seg # rest)) = ?L # file_lines (write_lines (i + 1) rest)"
    unfolding w by (rule file_lines_line[OF nl])
  have pl: "parse_line U ?L = Some (\<lfloor>fst seg\<rfloor>, \<lfloor>snd seg\<rfloor>)"
    using parse_line_segment[OF di t1(1) t2(1), of U] t1(2)[of U] t2(2)[of U]
    by (simp add: bind_err_def)
  have rest: "\<forall>seg \<in> set rest. 0 \<le> fst seg \<and> 0 \<le> snd seg" using Cons.prems(1) by simp
  have i1: "0 \<le> i + 1" using Cons.prems(2) by simp
  have "read_lines U (file_lines (write_lines i (seg # rest))) [] =
        read_lines U (file_lines (write_lines (i + 1) rest)) [(\<lfloor>fst seg\<rfloor>, \<lfloor>snd seg\<rfloor>)]"
    unfolding fl read_lines.simps pl by simp
  also have "\<dots> = [(\<lfloor>fst seg\<rfloor>, \<lfloor>snd seg\<rfloor>)] @ read_lines U (file_lines (write_lines (i + 1) rest)) []"
    by (rule read_lines_append)
  finally show ?case using Cons.IH[OF rest i1] by simp
qed

lemma header_lines:
  "file_lines (write_timestamps segs) =
     HEADER # replicate 40 61 # [] # file_lines (write_lines 1 segs)"
proof -
  have h: "LF \<notin> set HEADER" "CR \<notin> set HEADER"
    by (simp_all add: HEADER_def ascii_def LF_def CR_def)
  have r: "LF \<notin> set (replicate 40 (61::nat))" "CR \<notin> set (replicate 40 (61::nat))"
    by (simp_all add: LF_def CR_def)
  have "write_timestamps segs = HEADER @ LF # (replicate 40 61 @ LF # ([] @ LF # write_lines 1 segs))"
    by (simp add: write_timestamps_def)
  then have "file_lines (write_timestamps segs) =
        HEADER # file_lines (replicate 40 61 @ LF # ([] @ LF # write_lines 1 segs))"
    using file_lines_line[OF h] by simp
  also have "file_lines (replicate 40 61 @ LF # ([] @ LF # write_lines 1 segs)) =
        replicate 40 61 # file_lines ([] @ LF # write_lines 1 segs)"
    by (rule file_lines_line[OF r])
  also have "file_lines ([] @ LF # write_lines 1 segs) = [] # file_lines (write_lines 1 segs)"
    by (rule file_lines_line) simp_all
  finally show ?thesis .
qed

lemma digits_small: "n < 10 \<Longrightarrow> digits n = [48 + n]"
  by (subst digits.simps) simp

lemma write_lines_example:
  "write_lines 1 [(0, 6), (9, 127 / 10)] =
     ascii ''1. 00:00:00 '' @ [ARROW] @ ascii '' 00:00:06'' @ [LF] @
     ascii ''2. 00:00:09 '' @ [ARROW] @ ascii '' 00:00:12'' @ [LF]"
proof -
  have d: "digits 0 = [48]" "digits 1 = [49]" "digits 2 = [50]" "digits 6 = [54]" "digits 9 = [57]"
    "digits (Suc 0) = [49]"
    by (simp_all add: digits_small)
  have d12: "digits 12 = [49, 50]" by (subst digits.simps) (simp add: digits_small)
  have f: "\<lfloor>127 / 10 :: real\<rfloor> = 12" by linarith
  have t: "format_time 0 = ascii ''00:00:00''" "format_time 6 = ascii ''00:00:06''"
    "format_time 9 = ascii ''00:00:09''"
    by (simp_all add: format_time_def py_int_of_float_def py_floordiv_def py_mod_def
        format_02d_def zfill_def d ascii_def)
  have "py_mod (127 / 10) 60 = 127 / 10" by (simp add: py_mod_def)
  then have t12: "format_time (127 / 10) = ascii ''00:00:12''"
    by (simp add: format_time_def py_int_of_float_def py_floordiv_def f
        format_02d_def zfill_def d d12 ascii_def py_mod_def)
  show ?thesis
    by (simp add: t t12 py_str_int_def d ascii_def)
qed

text \<open>
  Claim C4. For segments with non-negative times, reading the text the detector writes
  gives the segments back in the same order, each time rounded down to a whole second,
  whatever the Unicode tables; the same holds for the file the detector leaves when there
  is at least one segment.
\<close>

theorem timestamps_roundtrip:
  assumes "\<forall>seg \<in> set segs. 0 \<le> fst seg \<and> 0 \<le> snd seg"
  shows "read_timestamps U (Some (write_timestamps segs)) =
           map (\<lambda>seg. (\<lfloor>fst seg\<rfloor>, \<lfloor>snd seg\<rfloor>)) segs \<and>
         (segs \<noteq> [] \<longrightarrow>
            read_timestamps U (save_timestamps segs old_file) =
              map (\<lambda>seg. (\<lfloor>fst seg\<rfloor>, \<lfloor>snd seg\<rfloor>)) segs)"
proof -
  have h: "parse_line U HEADER = None"
    by (rule parse_line_no_arrow) (simp add: HEADER_def ascii_def ARROW_def)
  have r: "parse_line U (replicate 40 61) = None"
    by (rule parse_line_no_arrow) (simp add: ARROW_def)
  have e: "parse_line U [] = None"
    by (rule parse_line_no_arrow) simp
  have "read_timestamps U (Some (write_timestamps segs)) =
        read_lines U (file_lines (write_lines 1 segs)) []"
    by (simp add: read_timestamps_def header_lines h r e)
  with read_write_lines[OF assms, of 1 U]
  have "read_timestamps U (Some (write_timestamps segs)) =
           map (\<lambda>seg. (\<lfloor>fst seg\<rfloor>, \<lfloor>snd seg\<rfloor>)) segs" by simp
  then show ?thesis by (simp add: save_timestamps_def)
qed

theorem timestamps_roundtrip_witness:
  "list_all (\<lambda>seg. 0 \<le> fst seg \<and> 0 \<le> snd seg) [(0 :: real, 6 :: real), (9, 127 / 10)] \<and>
   write_lines 1 [(0, 6), (9, 127 / 10)] =
     ascii ''1. 00:00:00 '' @ [ARROW] @ ascii '' 00:00:06'' @ [LF] @
     ascii ''2. 00:00:09 '' @ [ARROW] @ ascii '' 00:00:12'' @ [LF] \<and>
   read_timestamps ascii_only (Some (write_timestamps [(0, 6), (9, 127 / 10)])) =
     [(0, 6), (9, 12)] \<and>
   read_timestamps ascii_only (save_timestamps [(0, 6), (9, 127 / 10)] None) =
     [(0, 6), (9, 12)]"
proof -
  let ?segs = "[(0 :: real, 6 :: real), (9, 127 / 10)]"
  have h: "\<forall>seg \<in> set ?segs. 0 \<le> fst seg \<and> 0 \<le> snd seg" by simp
  have f: "\<lfloor>127 / 10 :: real\<rfloor> = 12" by linarith
  from timestamps_roundtrip[OF h, of ascii_only] f
  have "read_timestamps ascii_only (Some (write_timestamps ?segs)) = [(0, 6), (9, 12)] \<and>
        read_timestamps ascii_only (save_timestamps ?segs None) = [(0, 6), (9, 12)]"
    by simp
  with write_lines_example show ?thesis by simp
qed

end
